theory Spec2Isabelle
  imports Complex_Main
begin

section \<open>JavaScript arrays of numbers\<close>

text \<open>
  Reading a JavaScript array at an index beyond its length gives \<^verbatim>\<open>undefined\<close>.
  The value \<open>None\<close> stands for \<^verbatim>\<open>undefined\<close> throughout.
\<close>

definition js_index :: "'a list \<Rightarrow> nat \<Rightarrow> 'a option" where
  "js_index xs i = (if i < length xs then Some (xs ! i) else None)"

text \<open>
  \<^verbatim>\<open>!d\<close> for a dimension \<open>d\<close> that is an integer or \<^verbatim>\<open>undefined\<close>: true for
  \<^verbatim>\<open>undefined\<close> and for 0.
\<close>

definition falsy :: "int option \<Rightarrow> bool" where
  "falsy d = (d = None \<or> d = Some 0)"

section \<open>broadcast (index.ts, lines 15-35)\<close>

text \<open>
  The body of the \<^verbatim>\<open>for\<close> loop at one index: \<open>Some d\<close> is the assignment
  \<^verbatim>\<open>outShape[i] = d\<close> (where \<open>d\<close> itself may be \<^verbatim>\<open>undefined\<close>), \<open>None\<close> is the
  bare \<^verbatim>\<open>return\<close> of the last branch.
\<close>

definition broadcast_dim :: "int option \<Rightarrow> int option \<Rightarrow> int option option" where
  "broadcast_dim r1 r2 =
     (if falsy r1 \<or> r1 = Some 1 then Some r2
      else if falsy r2 \<or> r2 = Some 1 then Some r1
      else if r1 = r2 then Some r1
      else None)"

function broadcast_loop ::
  "int list \<Rightarrow> int list \<Rightarrow> nat \<Rightarrow> nat \<Rightarrow> int option list \<Rightarrow> int option list option" where
  "broadcast_loop reversed1 reversed2 maxLength i outShape =
     (if i < maxLength then
        (case broadcast_dim (js_index reversed1 i) (js_index reversed2 i) of
           None \<Rightarrow> None
         | Some d \<Rightarrow> broadcast_loop reversed1 reversed2 maxLength (i + 1) (outShape[i := d]))
      else Some (rev outShape))"
  by pat_completeness auto
termination
  by (relation "measure (\<lambda>(r1, r2, m, i, out). m - i)") auto

declare broadcast_loop.simps [simp del]

text \<open>
  The result \<open>None\<close> is the function returning \<^verbatim>\<open>undefined\<close> (no broadcast shape);
  an entry \<open>None\<close> inside a returned shape is an \<^verbatim>\<open>undefined\<close> element.
\<close>

definition broadcast :: "int list \<Rightarrow> int list \<Rightarrow> int option list option" where
  "broadcast shape1 shape2 =
     (if length shape1 = 0 \<or> length shape2 = 0 then None
      else
        let reversed1 = rev shape1;
            reversed2 = rev shape2;
            maxLength = max (length shape1) (length shape2);
            outShape = replicate maxLength None
        in broadcast_loop reversed1 reversed2 maxLength 0 outShape)"

text \<open>
  The rule of the specification for one aligned pair, in its own words: \<open>d2\<close> if \<open>d1\<close> is
  missing or equals 1; else \<open>d1\<close> if \<open>d2\<close> is missing or equals 1; else \<open>d1\<close> if
  \<open>d1 = d2\<close>; otherwise incompatible (\<open>None\<close>).
\<close>

definition broadcastShape_rule :: "int option \<Rightarrow> int option \<Rightarrow> int option option" where
  "broadcastShape_rule d1 d2 =
     (if d1 = None \<or> d1 = Some 1 then Some d2
      else if d2 = None \<or> d2 = Some 1 then Some d1
      else if d1 = d2 then Some d1
      else None)"

text \<open>The aligned pair at distance \<open>i\<close> from the trailing dimension.\<close>

definition aligned :: "int list \<Rightarrow> nat \<Rightarrow> int option" where
  "aligned s i = js_index (rev s) i"

section \<open>arange (index.ts, lines 293-332)\<close>

datatype dtype = Dtype string

text \<open>The six call forms of the overload list, in the order they are declared.\<close>

datatype arange_args =
    Stop int
  | StartStop int int
  | StopDtype int dtype
  | StartStopStep int int int
  | StartStopDtype int int dtype
  | StartStopStepDtype int int int dtype

text \<open>
  A JavaScript number is a double-precision value. The arguments are integers, so every
  value the loop variable takes is an integer-valued double or an infinity.
\<close>

datatype jsnum = Finite int | PosInfinity | NegInfinity

text \<open>
  The binary exponent of the unit in the last place of a magnitude \<open>n\<close>: the number of
  bits that do not fit into the 53 bits of the significand.
\<close>

function expo :: "int \<Rightarrow> nat" where
  "expo n = (if n < 2 ^ 53 then 0 else Suc (expo (n div 2)))"
  by pat_completeness auto
termination
  by (relation "measure nat") auto

declare expo.simps [simp del]

text \<open>
  Rounding of a magnitude to 53 significant bits, to the nearest with ties to the even
  significand. Every magnitude up to \<open>2 ^ 53\<close> is a double and is kept.
\<close>

definition round_mag :: "int \<Rightarrow> int" where
  "round_mag n =
     (if n \<le> 2 ^ 53 then n
      else let e = expo n;
               q = n div 2 ^ e;
               r = n mod 2 ^ e;
               half = 2 ^ (e - 1)
           in (if half < r \<or> (r = half \<and> odd q) then q + 1 else q) * 2 ^ e)"

text \<open>
  The double nearest to an integer. A rounded magnitude of \<open>2 ^ 1024\<close> or more
  overflows to an infinity.
\<close>

definition round64 :: "int \<Rightarrow> jsnum" where
  "round64 x =
     (let m = round_mag \<bar>x\<bar>
      in if 2 ^ 1024 \<le> m then (if x < 0 then NegInfinity else PosInfinity)
         else Finite (sgn x * m))"

text \<open>\<^verbatim>\<open>start += step\<close>: the sum is rounded; an infinity plus a finite number is itself.\<close>

fun js_add :: "jsnum \<Rightarrow> int \<Rightarrow> jsnum" where
  "js_add (Finite a) s = round64 (a + s)"
| "js_add PosInfinity s = PosInfinity"
| "js_add NegInfinity s = NegInfinity"

text \<open>\<^verbatim>\<open>start < stop\<close> with a finite \<open>stop\<close>.\<close>

fun js_less :: "jsnum \<Rightarrow> int \<Rightarrow> bool" where
  "js_less (Finite a) b = (a < b)"
| "js_less PosInfinity b = False"
| "js_less NegInfinity b = True"

text \<open>
  \<^verbatim>\<open>result[i] = v\<close> on an array of length \<open>i\<close>. An index below \<open>2 ^ 32 - 1\<close> is an
  array index and the write appends. A larger one is an ordinary property name: the write
  adds no element and the array keeps its length.
\<close>

definition js_append :: "'a list \<Rightarrow> int \<Rightarrow> 'a \<Rightarrow> 'a list" where
  "js_append result i v = (if i < 2 ^ 32 - 1 then result @ [v] else result)"

text \<open>
  The \<^verbatim>\<open>while\<close> loop. It does not return when \<open>start < stop\<close> stays true, so it
  is a partial function: \<open>None\<close> is a loop that runs forever. The array starts empty and
  the index \<open>i\<close> counts the writes, so as long as it is an array index it equals the length
  of \<open>result\<close>.
\<close>

partial_function (option) arange_loop ::
  "jsnum \<Rightarrow> int \<Rightarrow> int \<Rightarrow> int \<Rightarrow> jsnum list \<Rightarrow> jsnum list option" where
  "arange_loop start stop step i result =
     (if js_less start stop
      then arange_loop (js_add start step) stop step (i + 1) (js_append result i start)
      else Some result)"

declare arange_loop.simps [code]

text \<open>
  The part of the function after the dispatch on the argument count. The result is the
  pair handed to the array factory: the values and the dtype.
\<close>

definition arange_main :: "int \<Rightarrow> int \<Rightarrow> int \<Rightarrow> dtype option \<Rightarrow> (jsnum list \<times> dtype option) option" where
  "arange_main start stop step dt =
     map_option (\<lambda>result. (result, dt)) (arange_loop (Finite start) stop step 0 [])"

fun arange :: "arange_args \<Rightarrow> (jsnum list \<times> dtype option) option" where
  "arange (Stop n) = arange_main 0 n 1 None"
| "arange (StartStop a b) = arange_main a b 1 None"
| "arange (StopDtype n d) = arange_main 0 n 1 (Some d)"
| "arange (StartStopDtype a b d) = arange_main a b 1 (Some d)"
| "arange (StartStopStep a b s) = arange_main a b s None"
| "arange (StartStopStepDtype a b s d) = arange_main a b s (Some d)"

section \<open>Nested JavaScript arrays\<close>

datatype error = ValueError | TypeError

datatype jsval = Num real | Undef | Arr "jsval list"

text \<open>
  Modelled from the spec: the shape of a nested array (the helper \<^verbatim>\<open>getShape\<close> of
  the utilities module, which is not among the sources) is inferred by walking the
  nesting depth and the lengths of the first elements.
\<close>

fun getShape :: "jsval \<Rightarrow> nat list" where
  "getShape (Arr xs) = length xs # (case xs of [] \<Rightarrow> [] | x # _ \<Rightarrow> getShape x)"
| "getShape (Num x) = []"
| "getShape Undef = []"

text \<open>
  \<^verbatim>\<open>v[i]\<close>: an element, \<^verbatim>\<open>undefined\<close> beyond the length and on a number, a
  \<^verbatim>\<open>TypeError\<close> on \<^verbatim>\<open>undefined\<close>.
\<close>

fun js_get :: "jsval \<Rightarrow> nat \<Rightarrow> error + jsval" where
  "js_get (Arr xs) i = Inr (if i < length xs then xs ! i else Undef)"
| "js_get (Num x) i = Inr Undef"
| "js_get Undef i = Inl TypeError"

text \<open>
  \<^verbatim>\<open>v[i] = w\<close> in strict mode: an array is extended when \<open>i\<close> is beyond its length,
  a number or \<^verbatim>\<open>undefined\<close> raises a \<^verbatim>\<open>TypeError\<close>.
\<close>

fun js_set :: "jsval \<Rightarrow> nat \<Rightarrow> jsval \<Rightarrow> error + jsval" where
  "js_set (Arr xs) i w =
     Inr (Arr (if i < length xs then xs[i := w]
               else xs @ replicate (i - length xs) Undef @ [w]))"
| "js_set (Num x) i w = Inl TypeError"
| "js_set Undef i w = Inl TypeError"

text \<open>
  \<^verbatim>\<open>v.concat(w)\<close>: the elements of an array \<open>w\<close> are appended, any other \<open>w\<close> is
  appended as one element; a number or \<^verbatim>\<open>undefined\<close> has no such method.
\<close>

fun js_concat :: "jsval \<Rightarrow> jsval \<Rightarrow> error + jsval" where
  "js_concat (Arr xs) (Arr ys) = Inr (Arr (xs @ ys))"
| "js_concat (Arr xs) (Num y) = Inr (Arr (xs @ [Num y]))"
| "js_concat (Arr xs) Undef = Inr (Arr (xs @ [Undef]))"
| "js_concat (Num x) w = Inl TypeError"
| "js_concat Undef w = Inl TypeError"

section \<open>concatenate (index.ts, lines 621-682)\<close>

text \<open>
  The function works on the array it is given first: \<^verbatim>\<open>m[row] = ...\<close> replaces a slot of
  \<^verbatim>\<open>arrays[0]\<close> in place, and a later input that is the same object is then read in
  its changed state. So the arrays the inputs stand for live in a store, a list addressed
  by position, and the inputs are references into it. The slots of the outermost array
  of \<open>m\<close> are the only ones written: the rows and planes put there are new arrays, and no
  row or plane is itself changed. Hence what is below the outermost level of an array is
  kept as a value. (This leaves out an input that holds the array given first as one of
  its own rows or planes; such an input, when regular, has a higher rank than that
  array.)
\<close>

type_synonym objs = "jsval list"

text \<open>The array at an address; an address that holds nothing reads as \<^verbatim>\<open>undefined\<close>.\<close>

definition deref :: "objs \<Rightarrow> nat \<Rightarrow> jsval" where
  "deref os p = (if p < length os then os ! p else Undef)"

text \<open>A newly created array gets the next free address.\<close>

definition new_obj :: "objs \<Rightarrow> jsval \<Rightarrow> objs \<times> nat" where
  "new_obj os v = (os @ [v], length os)"

text \<open>
  An input is a number, an \<^verbatim>\<open>NdArray\<close>, given by the nested list that its \<^verbatim>\<open>tolist\<close>
  yields, or a nested array of the caller, given by its address in the store.
\<close>

datatype input = Number real | FromNdArray jsval | Nested nat

text \<open>
  The first loop, \<^verbatim>\<open>arrays[i] = a instanceof NdArray ? a.tolist() : isNumber(a) ? [a] : a\<close>.
  Modelled from the spec: \<^verbatim>\<open>tolist\<close> builds a new nested array at each call. The
  array \<^verbatim>\<open>[a]\<close> is new as well; a nested array of the caller stays the object it is.
\<close>

fun convert_input :: "objs \<Rightarrow> input \<Rightarrow> objs \<times> nat" where
  "convert_input os (Number x) = new_obj os (Arr [Num x])"
| "convert_input os (FromNdArray v) = new_obj os v"
| "convert_input os (Nested p) = (os, p)"

fun convert_inputs :: "objs \<Rightarrow> input list \<Rightarrow> objs \<times> nat list" where
  "convert_inputs os [] = (os, [])"
| "convert_inputs os (a # as) =
     (case convert_input os a of (os1, p) \<Rightarrow>
      case convert_inputs os1 as of (os2, ps) \<Rightarrow> (os2, p # ps))"

text \<open>
  The loop over \<^verbatim>\<open>row\<close> of the rank 2 branch, \<^verbatim>\<open>m[row] = m[row].concat(a[row])\<close>.
  Both \<open>m\<close> and \<open>a\<close> are addresses: each round reads them in the store as it is then, and
  writes the new row into the array at \<open>m\<close>.
\<close>

function concat_rows :: "objs \<Rightarrow> nat \<Rightarrow> nat \<Rightarrow> nat \<Rightarrow> nat \<Rightarrow> error + objs" where
  "concat_rows os m a n row =
     (if row < n then
        (case js_get (deref os m) row of Inl e \<Rightarrow> Inl e | Inr mr \<Rightarrow>
         case js_get (deref os a) row of Inl e \<Rightarrow> Inl e | Inr ar \<Rightarrow>
         case js_concat mr ar of Inl e \<Rightarrow> Inl e | Inr r \<Rightarrow>
         case js_set (deref os m) row r of Inl e \<Rightarrow> Inl e | Inr m' \<Rightarrow>
           concat_rows (os[m := m']) m a n (row + 1))
      else Inr os)"
  by pat_completeness auto
termination
  by (relation "measure (\<lambda>(os, m, a, n, row). n - row)") auto

declare concat_rows.simps [simp del]

text \<open>
  The loop over \<^verbatim>\<open>colI\<close> of the rank 3 branch, filling the new array \<^verbatim>\<open>rowV\<close> from
  the planes \<^verbatim>\<open>m[rowI]\<close> and \<^verbatim>\<open>a[rowI]\<close>. Nothing is written to \<open>m\<close> while it runs,
  so the two planes are the same in every round.
\<close>

function concat_cols :: "jsval \<Rightarrow> jsval \<Rightarrow> nat \<Rightarrow> nat \<Rightarrow> jsval \<Rightarrow> error + jsval" where
  "concat_cols mr ar n colI rowV =
     (if colI < n then
        (case js_get mr colI of Inl e \<Rightarrow> Inl e | Inr mc \<Rightarrow>
         case js_get ar colI of Inl e \<Rightarrow> Inl e | Inr ac \<Rightarrow>
         case js_concat mc ac of Inl e \<Rightarrow> Inl e | Inr r \<Rightarrow>
         case js_set rowV colI r of Inl e \<Rightarrow> Inl e | Inr rowV' \<Rightarrow>
           concat_cols mr ar n (colI + 1) rowV')
      else Inr rowV)"
  by pat_completeness auto
termination
  by (relation "measure (\<lambda>(mr, ar, n, colI, rowV). n - colI)") auto

declare concat_cols.simps [simp del]

text \<open>
  The loop over \<^verbatim>\<open>rowI\<close> of the rank 3 branch; \<^verbatim>\<open>m[rowI] = rowV\<close> writes into the
  array at \<open>m\<close>.
\<close>

function concat_planes :: "objs \<Rightarrow> nat \<Rightarrow> nat \<Rightarrow> nat \<Rightarrow> nat \<Rightarrow> nat \<Rightarrow> error + objs" where
  "concat_planes os m a n0 n1 rowI =
     (if rowI < n0 then
        (case js_get (deref os m) rowI of Inl e \<Rightarrow> Inl e | Inr mr \<Rightarrow>
         case js_get (deref os a) rowI of Inl e \<Rightarrow> Inl e | Inr ar \<Rightarrow>
         case concat_cols mr ar n1 0 (Arr (replicate n1 Undef)) of Inl e \<Rightarrow> Inl e | Inr rowV \<Rightarrow>
         case js_set (deref os m) rowI rowV of Inl e \<Rightarrow> Inl e | Inr m' \<Rightarrow>
           concat_planes (os[m := m']) m a n0 n1 (rowI + 1))
      else Inr os)"
  by pat_completeness auto
termination
  by (relation "measure (\<lambda>(os, m, a, n0, n1, rowI). n0 - rowI)") auto

declare concat_planes.simps [simp del]

text \<open>
  One iteration of the loop over the inputs: the array at \<open>m\<close> joined with the next
  input, the array at \<open>a\<close>. In the rank 1 branch \<^verbatim>\<open>m = m.concat(a)\<close> makes \<open>m\<close> a new
  array; in the other two \<open>m\<close> stays the array it was and is changed in place.
\<close>

definition concat_step :: "objs \<Rightarrow> nat \<Rightarrow> nat \<Rightarrow> error + (objs \<times> nat)" where
  "concat_step os m a =
     (let mShape = getShape (deref os m); aShape = getShape (deref os a) in
      if length mShape \<noteq> length aShape then Inl ValueError
      else if length mShape = 1 \<and> length aShape = 1 then
        (case js_concat (deref os m) (deref os a) of Inl e \<Rightarrow> Inl e | Inr r \<Rightarrow> Inr (new_obj os r))
      else if (length mShape = 2 \<and> length aShape = 2 \<and> js_index mShape 0 = js_index aShape 0)
            \<or> (length mShape = 1 \<and> length aShape = 2 \<and> js_index mShape 0 = js_index aShape 0)
            \<or> (length mShape = 2 \<and> length aShape = 1 \<and> js_index mShape 0 = js_index aShape 0)
      then
        (case concat_rows os m a (mShape ! 0) 0 of Inl e \<Rightarrow> Inl e | Inr os' \<Rightarrow> Inr (os', m))
      else if (length mShape = 3 \<and> length aShape = 3
                 \<and> js_index mShape 0 = js_index aShape 0 \<and> js_index mShape 1 = js_index aShape 1)
            \<or> (length mShape = 2 \<and> length aShape = 3
                 \<and> js_index mShape 0 = js_index aShape 0 \<and> js_index mShape 1 = js_index aShape 1)
            \<or> (length mShape = 3 \<and> length aShape = 2
                 \<and> js_index mShape 0 = js_index aShape 0 \<and> js_index mShape 1 = js_index aShape 1)
      then
        (case concat_planes os m a (mShape ! 0) (mShape ! 1) 0 of
           Inl e \<Rightarrow> Inl e | Inr os' \<Rightarrow> Inr (os', m))
      else Inl ValueError)"

fun concat_all :: "objs \<Rightarrow> nat \<Rightarrow> nat list \<Rightarrow> error + (objs \<times> nat)" where
  "concat_all os m [] = Inr (os, m)"
| "concat_all os m (a # as) =
     (case concat_step os m a of Inl e \<Rightarrow> Inl e | Inr (os', m') \<Rightarrow> concat_all os' m' as)"

text \<open>
  \<^verbatim>\<open>concatenate\<close> on a store and a list of inputs. The result is the store it leaves,
  in which an array of the caller given first may have grown, and the nested list handed
  to the array factory. With no input at all, \<^verbatim>\<open>arrays[0].dtype\<close> raises a
  \<^verbatim>\<open>TypeError\<close>.
\<close>

definition concatenate :: "objs \<Rightarrow> input list \<Rightarrow> error + (objs \<times> jsval)" where
  "concatenate os arrays =
     (case convert_inputs os arrays of (os1, ps) \<Rightarrow>
      case ps of
        [] \<Rightarrow> Inl TypeError
      | m # rest \<Rightarrow>
          (case concat_all os1 m rest of
             Inl e \<Rightarrow> Inl e
           | Inr (os2, m') \<Rightarrow> Inr (os2, deref os2 m')))"

text \<open>
  A nested list that is a regular array of the given shape; its rank is the length of
  the shape \<open>getShape\<close> infers.
\<close>

fun has_shape :: "jsval \<Rightarrow> nat list \<Rightarrow> bool" where
  "has_shape (Num x) s = (s = [])"
| "has_shape Undef s = False"
| "has_shape (Arr xs) s =
     (case s of [] \<Rightarrow> False
      | n # s' \<Rightarrow> length xs = n \<and> (\<forall>x \<in> set xs. has_shape x s'))"

definition regular :: "jsval \<Rightarrow> bool" where
  "regular v = has_shape v (getShape v)"

text \<open>
  Joining two nested lists along the axis at depth \<open>d\<close>; at depth 0 the elements of
  the second are appended to the first.
\<close>

fun join :: "nat \<Rightarrow> jsval \<Rightarrow> jsval \<Rightarrow> jsval" where
  "join 0 (Arr xs) (Arr ys) = Arr (xs @ ys)"
| "join (Suc d) (Arr xs) (Arr ys) = Arr (map (\<lambda>(x, y). join d x y) (zip xs ys))"
| "join d v w = Undef"

text \<open>
  The nested list an input stands for when \<^verbatim>\<open>concatenate\<close> is called, a number counting
  as the one-element array it becomes, and its shape.
\<close>

fun input_value :: "objs \<Rightarrow> input \<Rightarrow> jsval" where
  "input_value os (Number x) = Arr [Num x]"
| "input_value os (FromNdArray v) = v"
| "input_value os (Nested p) = deref os p"

definition in_shape :: "objs \<Rightarrow> input \<Rightarrow> nat list" where
  "in_shape os a = getShape (input_value os a)"

text \<open>
  The array given first is given once more: it is a nested array of the caller, and the
  same object is among the later inputs.
\<close>

fun first_reused :: "input list \<Rightarrow> bool" where
  "first_reused (Nested p # rest) = (Nested p \<in> set rest)"
| "first_reused arrays = False"

section \<open>The strided array engine\<close>

text \<open>
  Modelled from the spec: the class \<^verbatim>\<open>NdArray\<close> (the file \<^verbatim>\<open>ndarray.ts\<close>) is not
  among the sources, so the view data model and its operations follow the specification
  (sections 3 and 4.2). A buffer is a flat list of numbers; the store holds the buffers,
  a buffer's address is its position in the store, and allocation appends a buffer. A
  view is the tuple (buffer, shape, strides, offset); several views may name one buffer.
\<close>

type_synonym buffer = "real list"

type_synonym store = "buffer list"

record ndarray =
  buf :: nat
  shape :: "nat list"
  stride :: "int list"
  offset :: int

definition ndim :: "ndarray \<Rightarrow> nat" where
  "ndim v = length (shape v)"


text \<open>The multi-indices of a shape in row-major order.\<close>

fun indices :: "nat list \<Rightarrow> nat list list" where
  "indices [] = [[]]"
| "indices (n # s) = concat (map (\<lambda>i. map ((#) i) (indices s)) [0..<n])"

text \<open>
  Modelled from the spec: the linear buffer position of a multi-index is
  \<open>offset + \<Sum> idx[i] * strides[i]\<close>.
\<close>

definition linear :: "int list \<Rightarrow> nat list \<Rightarrow> int" where
  "linear strides idx = sum_list (map (\<lambda>(i, st). int i * st) (zip idx strides))"

definition position :: "ndarray \<Rightarrow> nat list \<Rightarrow> int" where
  "position v idx = offset v + linear (stride v) idx"

text \<open>
  A view is valid in a store when its buffer is allocated, it has one stride per axis,
  and every multi-index lands inside the buffer (the invariant of the specification).
  Element reads and writes are meant for valid views.
\<close>

definition valid :: "store \<Rightarrow> ndarray \<Rightarrow> bool" where
  "valid h v =
     (buf v < length h \<and> length (stride v) = length (shape v) \<and>
      list_all (\<lambda>idx. 0 \<le> position v idx \<and> position v idx < int (length (h ! buf v)))
        (indices (shape v)))"

definition get_elem :: "store \<Rightarrow> ndarray \<Rightarrow> nat list \<Rightarrow> real" where
  "get_elem h v idx = (h ! buf v) ! nat (position v idx)"

definition set_elem :: "store \<Rightarrow> ndarray \<Rightarrow> nat list \<Rightarrow> real \<Rightarrow> store" where
  "set_elem h v idx x = h[buf v := (h ! buf v)[nat (position v idx) := x]]"

text \<open>The elements of a view in row-major order.\<close>

definition elems :: "store \<Rightarrow> ndarray \<Rightarrow> real list" where
  "elems h v = map (get_elem h v) (indices (shape v))"

text \<open>Row-major strides of a shape.\<close>

fun c_strides :: "nat list \<Rightarrow> int list" where
  "c_strides [] = []"
| "c_strides (n # s) = int (prod_list s) # c_strides s"

text \<open>A fresh buffer with a contiguous row-major view of it at offset 0.\<close>

definition alloc :: "store \<Rightarrow> buffer \<Rightarrow> nat list \<Rightarrow> store \<times> ndarray" where
  "alloc h d s = (h @ [d], \<lparr>buf = length h, shape = s, stride = c_strides s, offset = 0\<rparr>)"

text \<open>
  Modelled from the spec: \<open>clone\<close> always allocates a new buffer with identical shape
  and values, contiguous row-major layout, offset 0.
\<close>

definition clone :: "store \<Rightarrow> ndarray \<Rightarrow> store \<times> ndarray" where
  "clone h v = alloc h (elems h v) (shape v)"

text \<open>
  The contract of the element-wise operator compiler (\<^verbatim>\<open>cwise\<close>) and of the in-place
  routines of \<^verbatim>\<open>ndarray-ops\<close>: a scalar function applied to every element of the
  view, in place.
\<close>

definition cwise :: "(real \<Rightarrow> real) \<Rightarrow> store \<Rightarrow> ndarray \<Rightarrow> store" where
  "cwise f h v =
     fold (\<lambda>idx h'. set_elem h' v idx (f (get_elem h' v idx))) (indices (shape v)) h"

text \<open>Writing a list of values to the elements of a view, in row-major order.\<close>

definition write_view :: "store \<Rightarrow> ndarray \<Rightarrow> real list \<Rightarrow> store" where
  "write_view h v xs =
     fold (\<lambda>(idx, x) h'. set_elem h' v idx x) (zip (indices (shape v)) xs) h"

section \<open>Unary element-wise operations (index.ts, lines 136-160, 279-281, 426-594, 690-692)\<close>

text \<open>
  The operations are modelled on an \<^verbatim>\<open>NdArray\<close> argument, for which the source takes
  \<^verbatim>\<open>x.clone()\<close>. Elements are real numbers: \<^verbatim>\<open>NaN\<close> and rounding are not modelled.
  The pattern shared by the operations of index.ts: clone, then apply the scalar function
  to the clone in place, and return the clone.
\<close>

definition apply_on_clone ::
  "(real \<Rightarrow> real) \<Rightarrow> store \<Rightarrow> ndarray \<Rightarrow> store \<times> ndarray" where
  "apply_on_clone f h x = (case clone h x of (h', s) \<Rightarrow> (cwise f h' s, s))"

definition sigmoidCwise :: "real \<Rightarrow> real \<Rightarrow> real" where
  "sigmoidCwise a t = (if a < -30 then 0 else if a > 30 then 1 else 1 / (1 + exp (-1 * t * a)))"

text \<open>\<^verbatim>\<open>t || 1\<close>: 1 when \<open>t\<close> is omitted or 0.\<close>

definition or_default :: "real option \<Rightarrow> real \<Rightarrow> real" where
  "or_default t d = (case t of None \<Rightarrow> d | Some v \<Rightarrow> if v = 0 then d else v)"

definition sigmoid :: "store \<Rightarrow> ndarray \<Rightarrow> real option \<Rightarrow> store \<times> ndarray" where
  "sigmoid h x t = apply_on_clone (\<lambda>a. sigmoidCwise a (or_default t 1)) h x"

definition clipCwise :: "real \<Rightarrow> real \<Rightarrow> real \<Rightarrow> real" where
  "clipCwise a mn mx = min (max mn a) mx"

text \<open>The call forms of \<^verbatim>\<open>clip\<close>: one, two or three arguments.\<close>

datatype clip_args = Clip1 | Clip2 real | Clip3 real real

fun clip :: "store \<Rightarrow> ndarray \<Rightarrow> clip_args \<Rightarrow> store \<times> ndarray" where
  "clip h x Clip1 = apply_on_clone (\<lambda>a. clipCwise a 0 1) h x"
| "clip h x (Clip2 mn) = apply_on_clone (\<lambda>a. clipCwise a mn 1) h x"
| "clip h x (Clip3 mn mx) = apply_on_clone (\<lambda>a. clipCwise a mn mx) h x"

definition leakyReluCwise :: "real \<Rightarrow> real \<Rightarrow> real" where
  "leakyReluCwise xi alpha = max (alpha * xi) xi"

definition leakyRelu :: "store \<Rightarrow> ndarray \<Rightarrow> real option \<Rightarrow> store \<times> ndarray" where
  "leakyRelu h x alpha = apply_on_clone (\<lambda>xi. leakyReluCwise xi (or_default alpha (1 / 1000))) h x"

definition tanhCwise :: "real \<Rightarrow> real" where
  "tanhCwise xi = (exp (2 * xi) - 1) / (exp (2 * xi) + 1)"

definition tanh_op :: "store \<Rightarrow> ndarray \<Rightarrow> store \<times> ndarray" where
  "tanh_op h x = apply_on_clone tanhCwise h x"

definition abs_op :: "store \<Rightarrow> ndarray \<Rightarrow> store \<times> ndarray" where
  "abs_op h x = apply_on_clone abs h x"

definition cos_op :: "store \<Rightarrow> ndarray \<Rightarrow> store \<times> ndarray" where
  "cos_op h x = apply_on_clone cos h x"

definition arccos_op :: "store \<Rightarrow> ndarray \<Rightarrow> store \<times> ndarray" where
  "arccos_op h x = apply_on_clone arccos h x"

definition sin_op :: "store \<Rightarrow> ndarray \<Rightarrow> store \<times> ndarray" where
  "sin_op h x = apply_on_clone sin h x"

definition arcsin_op :: "store \<Rightarrow> ndarray \<Rightarrow> store \<times> ndarray" where
  "arcsin_op h x = apply_on_clone arcsin h x"

definition tan_op :: "store \<Rightarrow> ndarray \<Rightarrow> store \<times> ndarray" where
  "tan_op h x = apply_on_clone tan h x"

definition arctan_op :: "store \<Rightarrow> ndarray \<Rightarrow> store \<times> ndarray" where
  "arctan_op h x = apply_on_clone arctan h x"

text \<open>
  Modelled from the spec: \<^verbatim>\<open>exp\<close>, \<^verbatim>\<open>log\<close>, \<^verbatim>\<open>sqrt\<close>, \<^verbatim>\<open>negative\<close> and
  \<^verbatim>\<open>round\<close> delegate to methods of \<^verbatim>\<open>NdArray\<close>, which are not among the sources;
  by the specification a unary operation applies in place on a copy of the input.
\<close>

definition exp_op :: "store \<Rightarrow> ndarray \<Rightarrow> store \<times> ndarray" where
  "exp_op h x = apply_on_clone exp h x"

definition log_op :: "store \<Rightarrow> ndarray \<Rightarrow> store \<times> ndarray" where
  "log_op h x = apply_on_clone ln h x"

definition sqrt_op :: "store \<Rightarrow> ndarray \<Rightarrow> store \<times> ndarray" where
  "sqrt_op h x = apply_on_clone sqrt h x"

definition negative :: "store \<Rightarrow> ndarray \<Rightarrow> store \<times> ndarray" where
  "negative h x = apply_on_clone uminus h x"

definition round_op :: "store \<Rightarrow> ndarray \<Rightarrow> store \<times> ndarray" where
  "round_op h x = apply_on_clone (\<lambda>a. real_of_int (round a)) h x"

text \<open>
  What it means for an operation to work on a copy: every buffer of the store before the
  call is there unchanged after it, so the elements of the caller's array are unchanged,
  and the result has the caller's shape.
\<close>

definition on_copy :: "store \<Rightarrow> ndarray \<Rightarrow> store \<times> ndarray \<Rightarrow> bool" where
  "on_copy h x res =
     (case res of (h', r) \<Rightarrow>
        length h \<le> length h' \<and> take (length h) h' = h \<and>
        elems h' x = elems h x \<and> shape r = shape x)"

section \<open>fft and ifft (index.ts, lines 720-760)\<close>

text \<open>
  Modelled from the spec: \<open>pick\<close> fixes the given axes to an index and drops them from
  the shape; the other axes keep their strides; the result shares the buffer. An axis
  with no index (\<open>None\<close>, or beyond the picker) is kept as it is.
\<close>

definition nd_pick :: "ndarray \<Rightarrow> nat option list \<Rightarrow> ndarray" where
  "nd_pick v picker =
     (let axes = zip (picker @ replicate (ndim v - length picker) None)
                     (zip (shape v) (stride v));
          kept = filter (\<lambda>(p, n, st). p = None) axes
      in \<lparr>buf = buf v,
          shape = map (\<lambda>(p, n, st). n) kept,
          stride = map (\<lambda>(p, n, st). st) kept,
          offset = offset v +
            sum_list (map (\<lambda>(p, n, st). case p of None \<Rightarrow> 0 | Some i \<Rightarrow> int i * st) axes)\<rparr>)"

text \<open>
  The FFT collaborator (\<^verbatim>\<open>ndarray-fft\<close>) is a parameter: given the sign, the shape and
  the elements of the real and imaginary views, it yields their new elements, which are
  written back through the two views.
\<close>

type_synonym fft_fun = "int \<Rightarrow> nat list \<Rightarrow> real list \<Rightarrow> real list \<Rightarrow> real list \<times> real list"

text \<open>
  The body shared by \<^verbatim>\<open>fft\<close> (sign 1) and \<^verbatim>\<open>ifft\<close> (sign -1), on an
  \<^verbatim>\<open>NdArray\<close> argument. \<^verbatim>\<open>xShape[d - 1]\<close> is \<^verbatim>\<open>undefined\<close> for a shape of
  length 0.
\<close>

definition fft_body :: "int \<Rightarrow> fft_fun \<Rightarrow> store \<Rightarrow> ndarray \<Rightarrow> store \<times> (error + ndarray)" where
  "fft_body sign ndFFT h x0 =
     (case clone h x0 of (h1, x) \<Rightarrow>
        let xShape = shape x; d = length xShape in
        if (if d = 0 then None else js_index xShape (d - 1)) \<noteq> Some 2
        then (h1, Inl ValueError)
        else
          let rPicker = (replicate d None)[d - 1 := Some 0];
              iPicker = (replicate d None)[d - 1 := Some 1];
              re = nd_pick x rPicker;
              im = nd_pick x iPicker
          in case ndFFT sign (shape re) (elems h1 re) (elems h1 im) of
               (re', im') \<Rightarrow> (write_view (write_view h1 re re') im im', Inr x))"

definition fft :: "fft_fun \<Rightarrow> store \<Rightarrow> ndarray \<Rightarrow> store \<times> (error + ndarray)" where
  "fft ndFFT h x = fft_body 1 ndFFT h x"

definition ifft :: "fft_fun \<Rightarrow> store \<Rightarrow> ndarray \<Rightarrow> store \<times> (error + ndarray)" where
  "ifft ndFFT h x = fft_body (- 1) ndFFT h x"

text \<open>
  The caller's array is unmodified: every buffer of the store before the call is there
  unchanged after it, and so are the elements of \<open>x\<close>.
\<close>

definition unmodified :: "store \<Rightarrow> ndarray \<Rightarrow> store \<Rightarrow> bool" where
  "unmodified h x h' =
     (length h \<le> length h' \<and> take (length h) h' = h \<and> elems h' x = elems h x)"

section \<open>flip and rot90 (index.ts, lines 849-909)\<close>

text \<open>
  Modelled from the spec: \<open>step\<close> multiplies each axis's stride by the given factor; a
  negative factor reverses the axis and moves the offset to the last element of that
  axis; the size of the axis becomes \<open>ceil (n / abs d)\<close>; a zero step is invalid
  (\<open>ValueError\<close>). An axis with no factor is kept.
\<close>

definition step_dim :: "nat \<Rightarrow> int \<Rightarrow> nat" where
  "step_dim n d = nat ((int n + abs d - 1) div abs d)"

definition nd_step :: "ndarray \<Rightarrow> int list \<Rightarrow> error + ndarray" where
  "nd_step v steps =
     (if 0 \<in> set steps then Inl ValueError
      else
        let axes = zip (steps @ replicate (ndim v - length steps) 1)
                       (zip (shape v) (stride v))
        in Inr \<lparr>buf = buf v,
                shape = map (\<lambda>(d, n, st). step_dim n d) axes,
                stride = map (\<lambda>(d, n, st). st * d) axes,
                offset = offset v +
                  sum_list (map (\<lambda>(d, n, st). if d < 0 then st * (int n - 1) else 0) axes)\<rparr>)"

text \<open>
  Modelled from the spec: \<open>transpose\<close> permutes shape and strides according to the
  axes, which must be a permutation of \<open>[0, rank)\<close> (else \<open>ValueError\<close>); the result
  shares the buffer. An entry \<open>None\<close> of the axes is \<^verbatim>\<open>undefined\<close>.
\<close>

definition is_permutation :: "int option list \<Rightarrow> nat \<Rightarrow> bool" where
  "is_permutation axes n =
     (length axes = n \<and> list_all (\<lambda>i. Some (int i) \<in> set axes) [0..<n])"

definition nd_transpose :: "ndarray \<Rightarrow> int option list \<Rightarrow> error + ndarray" where
  "nd_transpose v axes =
     (if is_permutation axes (ndim v) then
        Inr \<lparr>buf = buf v,
             shape = map (\<lambda>a. shape v ! nat (the a)) axes,
             stride = map (\<lambda>a. stride v ! nat (the a)) axes,
             offset = offset v\<rparr>
      else Inl ValueError)"

text \<open>
  The loop \<^verbatim>\<open>while (cleanaxis < 0) cleanaxis += m.ndim\<close> of \<^verbatim>\<open>flip\<close>. It runs
  forever on a negative axis when \<^verbatim>\<open>m.ndim\<close> is 0, so it is a partial function.
\<close>

partial_function (option) clean_axis :: "int \<Rightarrow> int \<Rightarrow> int option" where
  "clean_axis cleanaxis n =
     (if cleanaxis < 0 then clean_axis (cleanaxis + n) n else Some cleanaxis)"

declare clean_axis.simps [code]

text \<open>
  \<^verbatim>\<open>flip\<close> on an \<^verbatim>\<open>NdArray\<close>. The indexer is a list of \<^verbatim>\<open>m.ndim\<close> ones;
  \<open>None\<close> is a call that does not return.
\<close>

definition flip :: "ndarray \<Rightarrow> int \<Rightarrow> (error + ndarray) option" where
  "flip m axis =
     (let indexer = replicate (ndim m) (1::int) in
      case clean_axis axis (int (ndim m)) of
        None \<Rightarrow> None
      | Some cleanaxis \<Rightarrow>
          if js_index indexer (nat cleanaxis) = None then Some (Inl ValueError)
          else Some (nd_step m (indexer[nat cleanaxis := - 1])))"

text \<open>The loop \<^verbatim>\<open>while (k < 0) k += 4\<close> of \<^verbatim>\<open>rot90\<close>.\<close>

function norm_k :: "int \<Rightarrow> int" where
  "norm_k k = (if k < 0 then norm_k (k + 4) else k)"
  by pat_completeness auto
termination
  by (relation "measure (\<lambda>k. nat (- k))") auto

declare norm_k.simps [simp del]

text \<open>
  Reading and writing a JavaScript array of numbers at an integer index: a read outside
  the array is \<^verbatim>\<open>undefined\<close>; a write beyond the end extends the array; a write at
  a negative index sets a property and leaves the elements as they are.
\<close>

definition js_read :: "int option list \<Rightarrow> int \<Rightarrow> int option" where
  "js_read xs a =
     (if 0 \<le> a \<and> nat a < length xs then xs ! nat a else None)"

definition js_write :: "int option list \<Rightarrow> int \<Rightarrow> int option \<Rightarrow> int option list" where
  "js_write xs a w =
     (if a < 0 then xs
      else if nat a < length xs then xs[nat a := w]
      else xs @ replicate (nat a - length xs) None @ [w])"

text \<open>
  \<^verbatim>\<open>rot90\<close> on an \<^verbatim>\<open>NdArray\<close> \<open>m\<close>, with \<open>k\<close> and \<open>axes\<close> optional (\<open>None\<close> when
  omitted; the axes are a flat list of integers). The test
  \<^verbatim>\<open>abs(axes2[0] - axes2[1]).ndim === m.ndim\<close> compares \<^verbatim>\<open>m.ndim\<close> with the rank
  of the array that the factory builds from a number; that rank is the parameter
  \<open>numberNdim\<close>, the factory not being among the sources.
\<close>

definition rot90 ::
  "nat \<Rightarrow> ndarray \<Rightarrow> int option \<Rightarrow> int list option \<Rightarrow> (error + ndarray) option" where
  "rot90 numberNdim m k axes =
     (let k1 = (case k of None \<Rightarrow> 1 | Some v \<Rightarrow> if v = 0 then 1 else v);
          k2 = norm_k k1 mod 4;
          axes2 = (case axes of None \<Rightarrow> [0, 1] | Some a \<Rightarrow> a)
      in
      if length axes2 \<noteq> 2 then Some (Inl ValueError)
      else
        let a0 = axes2 ! 0; a1 = axes2 ! 1 in
        if a0 = a1 \<or> numberNdim = ndim m then Some (Inl ValueError)
        else if k2 = 0 then Some (Inr m)
        else if k2 = 2 then
          (case flip m a0 of
             None \<Rightarrow> None
           | Some (Inl e) \<Rightarrow> Some (Inl e)
           | Some (Inr f) \<Rightarrow> flip f a1)
        else
          let axesList = map (\<lambda>i. Some (int i)) [0..<ndim m];
              keep = js_read axesList a0;
              axesList1 = js_write axesList a0 (js_read axesList a1);
              axesList2 = js_write axesList1 a1 keep
          in
          if k2 = 1 then
            (case flip m a1 of
               None \<Rightarrow> None
             | Some (Inl e) \<Rightarrow> Some (Inl e)
             | Some (Inr f) \<Rightarrow> Some (nd_transpose f axesList2))
          else
            (case nd_transpose m axesList2 of
               Inl e \<Rightarrow> Some (Inl e)
             | Inr t \<Rightarrow> flip t a1))"

text \<open>\<^verbatim>\<open>rot90\<close> with its default arguments, applied \<open>j\<close> times in a row.\<close>

fun rot90_iter :: "nat \<Rightarrow> nat \<Rightarrow> ndarray \<Rightarrow> (error + ndarray) option" where
  "rot90_iter numberNdim 0 x = Some (Inr x)"
| "rot90_iter numberNdim (Suc j) x =
     (case rot90 numberNdim x None None of
        None \<Rightarrow> None
      | Some (Inl e) \<Rightarrow> Some (Inl e)
      | Some (Inr r) \<Rightarrow> rot90_iter numberNdim j r)"

section \<open>zeros and stack (index.ts, lines 342-353 and 792-839)\<close>















section \<open>Properties of broadcast\<close>

lemma broadcast_loop_char:
  "i \<le> m \<Longrightarrow> length out = m \<Longrightarrow>
   broadcast_loop r1 r2 m i out =
     (if \<forall>j. i \<le> j \<and> j < m \<longrightarrow> broadcast_dim (js_index r1 j) (js_index r2 j) \<noteq> None
      then Some (rev (take i out @
                 map (\<lambda>j. the (broadcast_dim (js_index r1 j) (js_index r2 j))) [i..<m]))
      else None)"
proof (induction r1 r2 m i out rule: broadcast_loop.induct)
  case (1 r1 r2 m i out)
  show ?case
  proof (cases "i < m")
    case False
    with "1.prems" show ?thesis by (subst broadcast_loop.simps) simp
  next
    case True
    note lt = this
    show ?thesis
    proof (cases "broadcast_dim (js_index r1 i) (js_index r2 i)")
      case None
      with lt show ?thesis by (subst broadcast_loop.simps) auto
    next
      case (Some d)
      have ih: "broadcast_loop r1 r2 m (i + 1) (out[i := d]) =
        (if \<forall>j. i + 1 \<le> j \<and> j < m \<longrightarrow> broadcast_dim (js_index r1 j) (js_index r2 j) \<noteq> None
         then Some (rev (take (i + 1) (out[i := d]) @
                 map (\<lambda>j. the (broadcast_dim (js_index r1 j) (js_index r2 j))) [i + 1..<m]))
         else None)"
        using "1.IH"[OF lt Some] lt "1.prems" by simp
      have tk: "take (i + 1) (out[i := d]) = take i out @ [d]"
        using lt "1.prems" by (simp add: take_Suc_conv_app_nth)
      have up: "[i..<m] = i # [i + 1..<m]"
        using lt by (simp add: upt_conv_Cons)
      have all: "(\<forall>j. i \<le> j \<and> j < m \<longrightarrow> broadcast_dim (js_index r1 j) (js_index r2 j) \<noteq> None)
          = (\<forall>j. i + 1 \<le> j \<and> j < m \<longrightarrow> broadcast_dim (js_index r1 j) (js_index r2 j) \<noteq> None)"
      proof -
        have "\<And>j. i \<le> j \<Longrightarrow> j = i \<or> i + 1 \<le> j" by arith
        then show ?thesis using Some by (metis option.distinct(1) add_leD1)
      qed
      show ?thesis
        apply (subst broadcast_loop.simps)
        using lt Some ih tk up all by simp
    qed
  qed
qed

lemma broadcast_char:
  "broadcast s1 s2 =
     (if s1 = [] \<or> s2 = [] then None
      else if \<forall>j < max (length s1) (length s2).
                broadcast_dim (aligned s1 j) (aligned s2 j) \<noteq> None
      then Some (rev (map (\<lambda>j. the (broadcast_dim (aligned s1 j) (aligned s2 j)))
                       [0..<max (length s1) (length s2)]))
      else None)"
  unfolding broadcast_def aligned_def Let_def
  by (auto simp add: broadcast_loop_char)

lemma aligned_nth:
  "aligned s i = (if i < length s then Some (s ! (length s - 1 - i)) else None)"
  by (simp add: aligned_def js_index_def rev_nth)

lemma broadcast_SomeD:
  assumes "broadcast s1 s2 = Some r"
  shows "length r = max (length s1) (length s2)"
    and "i < max (length s1) (length s2) \<Longrightarrow>
           broadcast_dim (aligned s1 i) (aligned s2 i) = Some (rev r ! i)"
    and "s1 \<noteq> []" and "s2 \<noteq> []"
proof -
  let ?m = "max (length s1) (length s2)"
  let ?f = "\<lambda>j. the (broadcast_dim (aligned s1 j) (aligned s2 j))"
  from assms have ne: "s1 \<noteq> []" "s2 \<noteq> []"
    and ok: "\<forall>j < ?m. broadcast_dim (aligned s1 j) (aligned s2 j) \<noteq> None"
    and r: "r = rev (map ?f [0..<?m])"
    by (auto simp add: broadcast_char split: if_splits)
  show "length r = ?m" using r by simp
  show "s1 \<noteq> []" "s2 \<noteq> []" by (rule ne)+
  assume i: "i < ?m"
  have "rev r ! i = ?f i" using r i by simp
  moreover from ok i obtain d where "broadcast_dim (aligned s1 i) (aligned s2 i) = Some d" by blast
  ultimately show "broadcast_dim (aligned s1 i) (aligned s2 i) = Some (rev r ! i)" by simp
qed

lemma broadcast_dim_nonzero:
  "d1 \<noteq> Some 0 \<Longrightarrow> d2 \<noteq> Some 0 \<Longrightarrow> broadcast_dim d1 d2 = broadcastShape_rule d1 d2"
  by (simp add: broadcast_dim_def broadcastShape_rule_def falsy_def)

lemma aligned_mem: "aligned s i = Some d \<Longrightarrow> d \<in> set s"
proof -
  assume a: "aligned s i = Some d"
  then have i: "i < length s" by (simp add: aligned_nth split: if_splits)
  then have "length s - 1 - i < length s" by simp
  then have "s ! (length s - 1 - i) \<in> set s" by (rule nth_mem)
  with a i show ?thesis by (simp add: aligned_nth)
qed

lemma aligned_nonzero: "0 \<notin> set s \<Longrightarrow> aligned s i \<noteq> Some 0"
  using aligned_mem by blast

lemma nth_rev_index:
  "k < length r \<Longrightarrow> r ! k = rev r ! (length r - 1 - k)"
  by (simp add: rev_nth)

lemma aligned_leading:
  assumes "aligned s i = Some d" "n \<le> i" "n \<le> length s"
  shows "d \<in> set (take (length s - n) s)"
proof -
  from assms(1) have i: "i < length s" and d: "d = s ! (length s - 1 - i)"
    by (simp_all add: aligned_nth split: if_splits)
  have "length s - 1 - i < length s - n" using i assms(2) by simp
  then have "take (length s - n) s ! (length s - 1 - i) = s ! (length s - 1 - i)"
    by simp
  moreover have "length s - 1 - i < length (take (length s - n) s)"
    using i assms(2) by simp
  ultimately show ?thesis unfolding d by (metis nth_mem)
qed

lemma rule_defined_pair:
  "broadcastShape_rule d1 d2 = Some x \<Longrightarrow> (d2 = None \<longrightarrow> d1 \<noteq> None \<and> d1 \<noteq> Some 1)
     \<Longrightarrow> \<exists>d. x = Some d"
  by (cases d1; cases d2) (auto simp add: broadcastShape_rule_def split: if_splits)

lemma rule_defined:
  assumes "length s1 \<le> length s2 \<or> 1 \<notin> set (take (length s1 - length s2) s1)"
    and "i < max (length s1) (length s2)"
    and "broadcastShape_rule (aligned s1 i) (aligned s2 i) = Some x"
  shows "\<exists>d. x = Some d"
proof -
  have "aligned s1 i \<noteq> None \<and> aligned s1 i \<noteq> Some 1" if n: "aligned s2 i = None"
  proof -
    from n have i2: "length s2 \<le> i" by (simp add: aligned_nth split: if_splits)
    with assms(2) have i1: "i < length s1" by simp
    then obtain a where a: "aligned s1 i = Some a" by (simp add: aligned_nth)
    have "length s2 \<le> length s1" using i1 i2 by simp
    with a i2 have "a \<in> set (take (length s1 - length s2) s1)" by (rule aligned_leading)
    with assms(1) i1 i2 have "a \<noteq> 1" by auto
    with a show ?thesis by simp
  qed
  with assms(3) show ?thesis by (intro rule_defined_pair) auto
qed

lemma leading_copied:
  assumes r: "length r = max (length s1) (length s2)"
    and n: "length s2 \<le> length s1"
    and el: "\<And>i. length s2 \<le> i \<Longrightarrow> i < length s1 \<Longrightarrow> rev r ! i = aligned s1 i"
  shows "take (length s1 - length s2) r = map Some (take (length s1 - length s2) s1)"
proof (rule nth_equalityI)
  show "length (take (length s1 - length s2) r) = length (map Some (take (length s1 - length s2) s1))"
    using r n by simp
next
  fix k
  assume "k < length (take (length s1 - length s2) r)"
  then have k: "k < length s1 - length s2" by simp
  have len: "length r = length s1" using r n by simp
  have "r ! k = rev r ! (length r - 1 - k)" using k len by (intro nth_rev_index) simp
  also have "\<dots> = aligned s1 (length s1 - 1 - k)"
    unfolding len using k by (intro el) simp_all
  also have "\<dots> = Some (s1 ! k)" using k by (simp add: aligned_nth)
  finally show "take (length s1 - length s2) r ! k = map Some (take (length s1 - length s2) s1) ! k"
    using k by simp
qed


text \<open>
  Claim C1, as amended. For shapes without a zero dimension, and not in the case where
  \<open>shape1\<close> is the longer shape and one of its extra leading dimensions is 1: when
  \<open>broadcast\<close> succeeds, the result has rank \<open>max rank1 rank2\<close>, each result
  dimension follows the rule of the specification for the pair aligned from the trailing
  dimension, and the leading dimensions that the shorter shape lacks are copied from the
  longer shape; when some aligned pair is incompatible under the rule (unequal, neither
  side missing or 1), \<open>broadcast\<close> returns no result. In particular
  \<open>broadcast [3,1] [1,4]\<close> is \<open>[3,4]\<close> and \<open>broadcast [2,3] [4]\<close> fails.
\<close>

theorem broadcast_rule_nonzero:
  assumes z1: "0 \<notin> set shape1" and z2: "0 \<notin> set shape2"
    and lead: "length shape1 \<le> length shape2 \<or>
               1 \<notin> set (take (length shape1 - length shape2) shape1)"
  shows "(\<forall>r. broadcast shape1 shape2 = Some r \<longrightarrow>
            length r = max (length shape1) (length shape2)
          \<and> (\<forall>i < length r. \<exists>d. rev r ! i = Some d \<and>
                 broadcastShape_rule (aligned shape1 i) (aligned shape2 i) = Some (Some d))
          \<and> (length shape2 \<le> length shape1 \<longrightarrow>
                 take (length shape1 - length shape2) r =
                 map Some (take (length shape1 - length shape2) shape1))
          \<and> (length shape1 \<le> length shape2 \<longrightarrow>
                 take (length shape2 - length shape1) r =
                 map Some (take (length shape2 - length shape1) shape2)))
       \<and> ((\<exists>i < max (length shape1) (length shape2).
              broadcastShape_rule (aligned shape1 i) (aligned shape2 i) = None)
            \<longrightarrow> broadcast shape1 shape2 = None)
       \<and> broadcast [3, 1] [1, 4] = Some [Some 3, Some 4]
       \<and> broadcast [2, 3] [4] = None"
proof -
  let ?m = "max (length shape1) (length shape2)"
  have eq: "broadcast_dim (aligned shape1 i) (aligned shape2 i) =
            broadcastShape_rule (aligned shape1 i) (aligned shape2 i)" for i
    using z1 z2 by (intro broadcast_dim_nonzero aligned_nonzero)
  have A: "length r = ?m
          \<and> (\<forall>i < length r. \<exists>d. rev r ! i = Some d \<and>
                 broadcastShape_rule (aligned shape1 i) (aligned shape2 i) = Some (Some d))
          \<and> (length shape2 \<le> length shape1 \<longrightarrow>
                 take (length shape1 - length shape2) r =
                 map Some (take (length shape1 - length shape2) shape1))
          \<and> (length shape1 \<le> length shape2 \<longrightarrow>
                 take (length shape2 - length shape1) r =
                 map Some (take (length shape2 - length shape1) shape2))"
    if ok: "broadcast shape1 shape2 = Some r" for r
  proof -
    have len: "length r = ?m" using ok by (rule broadcast_SomeD)
    have rl: "broadcastShape_rule (aligned shape1 i) (aligned shape2 i) = Some (rev r ! i)"
      if "i < ?m" for i
      using broadcast_SomeD(2)[OF ok that] eq by simp
    have pair: "\<exists>d. rev r ! i = Some d \<and>
                 broadcastShape_rule (aligned shape1 i) (aligned shape2 i) = Some (Some d)"
      if "i < ?m" for i
      using rule_defined[OF lead that rl[OF that]] rl[OF that] by auto
    have l1: "take (length shape1 - length shape2) r =
                 map Some (take (length shape1 - length shape2) shape1)"
      if n: "length shape2 \<le> length shape1"
    proof (rule leading_copied[OF len n])
      fix i
      assume i: "length shape2 \<le> i" "i < length shape1"
      then have i': "i < ?m" by simp
      have none: "aligned shape2 i = None" using i by (simp add: aligned_nth)
      obtain d where d: "rev r ! i = Some d"
          "broadcastShape_rule (aligned shape1 i) (aligned shape2 i) = Some (Some d)"
        using pair[OF i'] by blast
      from d(2) none have "aligned shape1 i = Some d"
        by (auto simp add: broadcastShape_rule_def split: if_splits)
      with d(1) show "rev r ! i = aligned shape1 i" by simp
    qed
    have l2: "take (length shape2 - length shape1) r =
                 map Some (take (length shape2 - length shape1) shape2)"
      if n: "length shape1 \<le> length shape2"
    proof (rule leading_copied)
      show "length r = max (length shape2) (length shape1)" using len by (simp add: max.commute)
      show "length shape1 \<le> length shape2" by (rule n)
      fix i
      assume i: "length shape1 \<le> i" "i < length shape2"
      then have i': "i < ?m" by simp
      have none: "aligned shape1 i = None" using i by (simp add: aligned_nth)
      from rl[OF i'] none show "rev r ! i = aligned shape2 i"
        by (simp add: broadcastShape_rule_def)
    qed
    from len pair l1 l2 show ?thesis by simp
  qed
  have B: "broadcast shape1 shape2 = None"
    if "\<exists>i < ?m. broadcastShape_rule (aligned shape1 i) (aligned shape2 i) = None"
    using that eq by (auto simp add: broadcast_char)
  have C: "broadcast [3, 1] [1, 4] = Some [Some 3, Some 4]" by code_simp
  have D: "broadcast [2, 3] [4] = None" by code_simp
  from A B C D show ?thesis by blast
qed

theorem broadcast_rule_nonzero_witness:
  "0 \<notin> set [5, 3, 1::int] \<and> 0 \<notin> set [1, 4::int]
   \<and> 1 \<notin> set (take (length [5, 3, 1::int] - length [1, 4::int]) [5, 3, 1::int])
   \<and> (\<exists>r. broadcast [5, 3, 1] [1, 4] = Some r \<and> length r = 3 \<and> take 1 r = [Some 5])"
proof -
  have h1: "0 \<notin> set [5, 3, 1::int]" and h2: "0 \<notin> set [1, 4::int]" by simp_all
  have h3: "1 \<notin> set (take (length [5, 3, 1::int] - length [1, 4::int]) [5, 3, 1::int])"
    by simp
  have h3': "length [5, 3, 1::int] \<le> length [1, 4::int]
       \<or> 1 \<notin> set (take (length [5, 3, 1::int] - length [1, 4::int]) [5, 3, 1::int])"
    using h3 by simp
  have ev: "broadcast [5, 3, 1] [1, 4] = Some [Some 5, Some 3, Some 4]" by code_simp
  have "length [Some 5, Some 3, Some (4::int)] = max (length [5, 3, 1::int]) (length [1, 4::int])
      \<and> take (length [5, 3, 1::int] - length [1, 4::int]) [Some 5, Some 3, Some (4::int)] =
          map Some (take (length [5, 3, 1::int] - length [1, 4::int]) [5, 3, 1])"
    using broadcast_rule_nonzero[OF h1 h2 h3', THEN conjunct1, rule_format, OF ev] by simp
  then have "length [Some 5, Some 3, Some (4::int)] = 3
      \<and> take 1 [Some 5, Some 3, Some (4::int)] = [Some 5]"
    by simp
  with ev h1 h2 h3 show ?thesis by blast
qed

text \<open>
  Claim C1 as stated fails on a zero dimension: the pair \<open>(0, 5)\<close> is incompatible
  under the rule (unequal, neither side missing or 1), yet \<open>broadcast [0] [5]\<close>
  returns \<open>[5]\<close>.
\<close>

theorem broadcast_zero_counterexample:
  "broadcastShape_rule (aligned [0] 0) (aligned [5] 0) = None
   \<and> broadcast [0] [5] = Some [Some 5]"
  by code_simp

text \<open>
  Claim C9, as amended. \<open>broadcast\<close> returns no result whenever either shape is empty.
  An aligned pair with a 0 on one side never makes it fail: a 0 in \<open>shape1\<close> gives the
  dimension of \<open>shape2\<close> at that position (an undefined entry when \<open>shape2\<close> has
  none); a 0 in \<open>shape2\<close> gives the dimension of \<open>shape1\<close>, except that it gives the
  0 itself when the dimension of \<open>shape1\<close> is 1 or missing. For non-empty shapes the
  only failing pairs are those with both sides present, unequal, and neither 0 nor 1.
\<close>

theorem broadcast_empty_and_zero:
  "broadcast [] s = None \<and> broadcast s [] = None
   \<and> (\<forall>r i. broadcast s1 s2 = Some r \<and> i < length r \<and> aligned s1 i = Some 0
          \<longrightarrow> rev r ! i = aligned s2 i)
   \<and> (\<forall>r i. broadcast s1 s2 = Some r \<and> i < length r \<and> aligned s2 i = Some 0
          \<longrightarrow> rev r ! i =
              (if aligned s1 i = None \<or> aligned s1 i = Some 1 then Some 0 else aligned s1 i))
   \<and> (s1 \<noteq> [] \<and> s2 \<noteq> [] \<longrightarrow>
        (broadcast s1 s2 = None) =
        (\<exists>i a b. aligned s1 i = Some a \<and> aligned s2 i = Some b
              \<and> a \<noteq> 0 \<and> a \<noteq> 1 \<and> b \<noteq> 0 \<and> b \<noteq> 1 \<and> a \<noteq> b))"
proof -
  let ?m = "max (length s1) (length s2)"
  have E: "broadcast [] s = None" "broadcast s [] = None"
    by (simp_all add: broadcast_def)
  have Z1: "rev r ! i = aligned s2 i"
    if "broadcast s1 s2 = Some r \<and> i < length r \<and> aligned s1 i = Some 0" for r i
  proof -
    from that have ok: "broadcast s1 s2 = Some r" and i: "i < length r"
      and z: "aligned s1 i = Some 0" by simp_all
    have "i < ?m" using i broadcast_SomeD(1)[OF ok] by simp
    from broadcast_SomeD(2)[OF ok this] z show ?thesis
      by (simp add: broadcast_dim_def falsy_def)
  qed
  have Z2: "rev r ! i =
              (if aligned s1 i = None \<or> aligned s1 i = Some 1 then Some 0 else aligned s1 i)"
    if "broadcast s1 s2 = Some r \<and> i < length r \<and> aligned s2 i = Some 0" for r i
  proof -
    from that have ok: "broadcast s1 s2 = Some r" and i: "i < length r"
      and z: "aligned s2 i = Some 0" by simp_all
    have "i < ?m" using i broadcast_SomeD(1)[OF ok] by simp
    from broadcast_SomeD(2)[OF ok this] z show ?thesis
      by (auto simp add: broadcast_dim_def falsy_def split: if_splits)
  qed
  have F: "(broadcast s1 s2 = None) =
        (\<exists>i a b. aligned s1 i = Some a \<and> aligned s2 i = Some b
              \<and> a \<noteq> 0 \<and> a \<noteq> 1 \<and> b \<noteq> 0 \<and> b \<noteq> 1 \<and> a \<noteq> b)"
    if ne: "s1 \<noteq> [] \<and> s2 \<noteq> []"
  proof -
    have pair: "(broadcast_dim d1 d2 = None) =
        (\<exists>a b. d1 = Some a \<and> d2 = Some b
              \<and> a \<noteq> 0 \<and> a \<noteq> 1 \<and> b \<noteq> 0 \<and> b \<noteq> 1 \<and> a \<noteq> b)" for d1 d2
      by (cases d1; cases d2) (auto simp add: broadcast_dim_def falsy_def)
    have "(broadcast s1 s2 = None) =
          (\<exists>i < ?m. broadcast_dim (aligned s1 i) (aligned s2 i) = None)"
      using ne by (auto simp add: broadcast_char)
    also have "\<dots> = (\<exists>i. broadcast_dim (aligned s1 i) (aligned s2 i) = None)"
    proof
      assume "\<exists>i. broadcast_dim (aligned s1 i) (aligned s2 i) = None"
      then obtain i where n: "broadcast_dim (aligned s1 i) (aligned s2 i) = None" ..
      then have "aligned s1 i \<noteq> None" by (auto simp add: pair)
      then have "i < length s1" by (simp add: aligned_nth split: if_splits)
      then have "i < ?m" by simp
      with n show "\<exists>i < ?m. broadcast_dim (aligned s1 i) (aligned s2 i) = None" by blast
    qed blast
    finally show ?thesis by (simp only: pair)
  qed
  from E Z1 Z2 F show ?thesis by blast
qed

theorem broadcast_empty_and_zero_witness:
  "broadcast [0, 3] [7, 3] = Some [Some 7, Some 3] \<and> (1::nat) < length [Some (7::int), Some 3]
   \<and> aligned [0, 3] 1 = Some 0
   \<and> rev [Some (7::int), Some 3] ! 1 = aligned [7, 3] 1
   \<and> broadcast [1, 3] [0, 3] = Some [Some 0, Some 3] \<and> aligned [1, 3] 1 = Some 1
   \<and> rev [Some (0::int), Some 3] ! 1 = Some 0
   \<and> [2, 3] \<noteq> ([]::int list) \<and> [4] \<noteq> ([]::int list) \<and> broadcast [2, 3] [4] = None"
proof -
  have ev: "broadcast [0, 3] [7, 3] = Some [Some 7, Some 3]" by code_simp
  have i: "(1::nat) < length [Some (7::int), Some 3]" by simp
  have z: "aligned [0, 3] 1 = Some 0" by code_simp
  have a: "rev [Some (7::int), Some 3] ! 1 = aligned [7, 3] 1"
    using broadcast_empty_and_zero[of "[]" "[0, 3]" "[7, 3]", THEN conjunct2, THEN conjunct2,
        THEN conjunct1, rule_format, of "[Some 7, Some 3]" 1] ev i z
    by blast
  have ev2: "broadcast [1, 3] [0, 3] = Some [Some 0, Some 3]" by code_simp
  have i2: "(1::nat) < length [Some (0::int), Some 3]" by simp
  have z2: "aligned [0, 3] 1 = Some 0" by code_simp
  have al: "aligned [1, 3] 1 = Some 1" by code_simp
  have "rev [Some (0::int), Some 3] ! 1 =
      (if aligned [1, 3] 1 = None \<or> aligned [1, 3] 1 = Some 1 then Some 0 else aligned [1, 3] 1)"
    using broadcast_empty_and_zero[of "[]" "[1, 3]" "[0, 3]", THEN conjunct2, THEN conjunct2,
        THEN conjunct2, THEN conjunct1, rule_format, of "[Some 0, Some 3]" 1] ev2 i2 z2
    by blast
  then have b: "rev [Some (0::int), Some 3] ! 1 = Some 0" using al by simp
  have ne: "[2, 3] \<noteq> ([]::int list) \<and> [4] \<noteq> ([]::int list)" by simp
  have "\<exists>i a b. aligned [2, 3] i = Some a \<and> aligned [4] i = Some b
              \<and> a \<noteq> 0 \<and> a \<noteq> 1 \<and> b \<noteq> 0 \<and> b \<noteq> 1 \<and> a \<noteq> b"
    by (rule exI[of _ 0], rule exI[of _ 3], rule exI[of _ 4]) (simp add: aligned_nth)
  then have f: "broadcast [2, 3] [4] = None"
    using broadcast_empty_and_zero[of "[]" "[2, 3]" "[4]", THEN conjunct2, THEN conjunct2,
        THEN conjunct2, THEN conjunct2, rule_format, OF ne]
    by simp
  show ?thesis by (intro conjI ev i z a ev2 al b f) (simp_all)
qed

text \<open>
  Claim C9 as stated fails on the pair \<open>(1, 0)\<close>: one side equals 0 and the other
  operand's dimension is 1, but the result dimension is the 0 itself.
\<close>

theorem broadcast_one_zero_counterexample:
  "aligned [0] 0 = Some 0 \<and> aligned [1] 0 = Some 1 \<and> broadcast [1] [0] = Some [Some 0]"
  by code_simp

section \<open>Properties of arange\<close>

lemma round64_exact:
  assumes "\<bar>x\<bar> \<le> 2 ^ 53"
  shows "round64 x = Finite x"
proof -
  have m: "round_mag \<bar>x\<bar> = \<bar>x\<bar>" using assms by (simp add: round_mag_def)
  have "(2::int) ^ 53 < 2 ^ 1024" by (rule power_strict_increasing) simp_all
  with assms have small: "\<not> 2 ^ 1024 \<le> \<bar>x\<bar>" by linarith
  have "sgn x * \<bar>x\<bar> = x" by (simp add: sgn_if)
  with m small show ?thesis by (simp add: round64_def Let_def)
qed

lemma expo_large:
  "2 ^ 53 \<le> n \<Longrightarrow> 1 \<le> expo n \<and> 2 ^ 52 \<le> n div 2 ^ expo n"
proof (induction n rule: expo.induct)
  case (1 n)
  have e: "expo n = Suc (expo (n div 2))"
    using "1.prems" by (subst expo.simps) simp
  show ?case
  proof (cases "n div 2 < 2 ^ 53")
    case True
    then have "expo (n div 2) = 0" by (subst expo.simps) simp
    moreover have "2 ^ 52 \<le> n div 2" using "1.prems" by simp
    ultimately show ?thesis using e by simp
  next
    case False
    then have "2 ^ 53 \<le> n div 2" by simp
    with "1.prems" have "2 ^ 52 \<le> (n div 2) div 2 ^ expo (n div 2)"
      using "1.IH" by simp
    moreover have "n div 2 ^ Suc (expo (n div 2)) = (n div 2) div 2 ^ expo (n div 2)"
      by (simp add: zdiv_zmult2_eq)
    ultimately show ?thesis using e by simp
  qed
qed

lemma round_mag_large:
  assumes "2 ^ 53 \<le> n"
  shows "2 ^ 53 \<le> round_mag n"
proof (cases "n \<le> 2 ^ 53")
  case True
  then show ?thesis using assms by (simp add: round_mag_def)
next
  case False
  define e where "e = expo n"
  define q where "q = n div 2 ^ e"
  define q' where "q' = (if 2 ^ (e - 1) < n mod 2 ^ e \<or> (n mod 2 ^ e = 2 ^ (e - 1) \<and> odd q)
                         then q + 1 else q)"
  have r: "round_mag n = q' * 2 ^ e"
    using False by (simp add: round_mag_def Let_def e_def q_def q'_def)
  have e1: "1 \<le> e" and q52: "2 ^ 52 \<le> q"
    using expo_large[OF assms] by (simp_all add: e_def q_def)
  have "q \<le> q'" by (simp add: q'_def)
  with q52 have "2 ^ 52 \<le> q'" by simp
  moreover have "(2::int) ^ 1 \<le> 2 ^ e" using e1 by (intro power_increasing) simp_all
  ultimately have "(2::int) ^ 52 * 2 ^ 1 \<le> q' * 2 ^ e" by (intro mult_mono) simp_all
  then show ?thesis unfolding r by simp
qed

lemma round64_below:
  assumes "x \<le> - (2 ^ 53)"
  shows "round64 x = NegInfinity \<or> (\<exists>r. round64 x = Finite r \<and> r \<le> - (2 ^ 53))"
proof -
  have neg: "x < 0" using assms by simp
  have "2 ^ 53 \<le> \<bar>x\<bar>" using assms by simp
  then have m: "2 ^ 53 \<le> round_mag \<bar>x\<bar>" by (rule round_mag_large)
  show ?thesis
  proof (cases "2 ^ 1024 \<le> round_mag \<bar>x\<bar>")
    case True
    then show ?thesis using neg by (simp add: round64_def Let_def)
  next
    case False
    then have "round64 x = Finite (sgn x * round_mag \<bar>x\<bar>)"
      by (simp add: round64_def Let_def)
    moreover have "sgn x * round_mag \<bar>x\<bar> \<le> - (2 ^ 53)"
      using neg m by (simp add: sgn_if)
    ultimately show ?thesis by simp
  qed
qed

lemma js_add_stays_below:
  assumes "step \<le> 0" "- (2 ^ 53) < stop" "stop \<le> 2 ^ 53" "js_less cur stop"
  shows "js_less (js_add cur step) stop"
proof (cases cur)
  case (Finite a)
  then have a: "a < stop" using assms(4) by simp
  show ?thesis
  proof (cases "- (2 ^ 53) \<le> a + step")
    case True
    then have "\<bar>a + step\<bar> \<le> 2 ^ 53" using a assms(1,3) by simp
    then have "round64 (a + step) = Finite (a + step)" by (rule round64_exact)
    then show ?thesis using Finite a assms(1) by simp
  next
    case False
    then have "a + step \<le> - (2 ^ 53)" by simp
    from round64_below[OF this] show ?thesis using Finite assms(2) by auto
  qed
next
  case PosInfinity
  then show ?thesis using assms(4) by simp
next
  case NegInfinity
  then show ?thesis by simp
qed

lemma arange_loop_diverges:
  "step \<le> 0 \<Longrightarrow> - (2 ^ 53) < stop \<Longrightarrow> stop \<le> 2 ^ 53 \<Longrightarrow> js_less cur stop \<Longrightarrow>
   arange_loop cur stop step i result = None"
proof -
  have "arange_loop cur stop step i result = Some y \<Longrightarrow>
        \<not> (step \<le> 0 \<and> - (2 ^ 53) < stop \<and> stop \<le> 2 ^ 53 \<and> js_less cur stop)" for y
  proof (rule arange_loop.raw_induct
          [where P = "\<lambda>cur stop step i result y.
             \<not> (step \<le> 0 \<and> - (2 ^ 53) < stop \<and> stop \<le> 2 ^ 53 \<and> js_less cur stop)"])
    fix f :: "jsnum \<Rightarrow> int \<Rightarrow> int \<Rightarrow> int \<Rightarrow> jsnum list \<Rightarrow> jsnum list option"
      and a :: jsnum and b c d :: int and e r :: "jsnum list"
    assume ih: "\<And>a b c d e y. f a b c d e = Some y \<Longrightarrow>
                  \<not> (c \<le> 0 \<and> - (2 ^ 53) < b \<and> b \<le> 2 ^ 53 \<and> js_less a b)"
      and eq: "(if js_less a b then f (js_add a c) b c (d + 1) (js_append e d a) else Some e) = Some r"
    show "\<not> (c \<le> 0 \<and> - (2 ^ 53) < b \<and> b \<le> 2 ^ 53 \<and> js_less a b)"
    proof
      assume h: "c \<le> 0 \<and> - (2 ^ 53) < b \<and> b \<le> 2 ^ 53 \<and> js_less a b"
      then have "f (js_add a c) b c (d + 1) (js_append e d a) = Some r" using eq by simp
      from ih[OF this] have "\<not> js_less (js_add a c) b" using h by simp
      moreover have "js_less (js_add a c) b" using h by (intro js_add_stays_below) simp_all
      ultimately show False by simp
    qed
  qed
  then show "step \<le> 0 \<Longrightarrow> - (2 ^ 53) < stop \<Longrightarrow> stop \<le> 2 ^ 53 \<Longrightarrow> js_less cur stop \<Longrightarrow>
      arange_loop cur stop step i result = None"
    by (cases "arange_loop cur stop step i result") auto
qed

text \<open>
  At \<open>2 ^ 53\<close> the spacing of the doubles is 2: the sum \<open>2 ^ 53 + 1\<close> lies halfway between
  \<open>2 ^ 53\<close> and \<open>2 ^ 53 + 2\<close> and is rounded to \<open>2 ^ 53\<close>, the one with the even significand.
\<close>

lemma expo_first_binade:
  assumes "2 ^ 53 \<le> n" "n < 2 ^ 54"
  shows "expo n = 1"
proof -
  have "n div 2 < 2 ^ 53" using assms(2) by simp
  then have "expo (n div 2) = 0" by (subst expo.simps) simp
  then show ?thesis using assms(1) by (subst expo.simps) simp
qed

lemma round64_stalls: "round64 (2 ^ 53 + 1) = Finite (2 ^ 53)"
proof -
  have n: "\<bar>(2::int) ^ 53 + 1\<bar> = 2 ^ 53 + 1" by simp
  have e: "expo (2 ^ 53 + 1) = 1" by (rule expo_first_binade) simp_all
  have "round_mag (2 ^ 53 + 1) = 2 ^ 53"
    using e by (simp add: round_mag_def Let_def)
  then show ?thesis unfolding round64_def n by (simp add: Let_def)
qed

lemma arange_loop_stalls:
  "arange_loop (Finite (2 ^ 53)) (2 ^ 53 + 2) 1 i result = None"
proof -
  have "arange_loop cur stop step i result = Some y \<Longrightarrow>
        \<not> (cur = Finite (2 ^ 53) \<and> stop = 2 ^ 53 + 2 \<and> step = 1)" for cur stop step y
  proof (rule arange_loop.raw_induct
          [where P = "\<lambda>cur stop step i result y.
             \<not> (cur = Finite (2 ^ 53) \<and> stop = 2 ^ 53 + 2 \<and> step = 1)"])
    fix f :: "jsnum \<Rightarrow> int \<Rightarrow> int \<Rightarrow> int \<Rightarrow> jsnum list \<Rightarrow> jsnum list option"
      and a :: jsnum and b c d :: int and e r :: "jsnum list"
    assume ih: "\<And>a b c d e y. f a b c d e = Some y \<Longrightarrow>
                  \<not> (a = Finite (2 ^ 53) \<and> b = 2 ^ 53 + 2 \<and> c = 1)"
      and eq: "(if js_less a b then f (js_add a c) b c (d + 1) (js_append e d a) else Some e) = Some r"
    show "\<not> (a = Finite (2 ^ 53) \<and> b = 2 ^ 53 + 2 \<and> c = 1)"
    proof
      assume h: "a = Finite (2 ^ 53) \<and> b = 2 ^ 53 + 2 \<and> c = 1"
      then have "js_less a b" by simp
      then have "f (js_add a c) b c (d + 1) (js_append e d a) = Some r" using eq by simp
      from ih[OF this] have "js_add a c \<noteq> Finite (2 ^ 53)" using h by simp
      moreover have "js_add a c = Finite (2 ^ 53)" using h round64_stalls by simp
      ultimately show False by simp
    qed
  qed
  then show ?thesis
    by (cases "arange_loop (Finite (2 ^ 53)) (2 ^ 53 + 2) 1 i result") auto
qed

lemma ceil_count_zero:
  fixes step :: int
  assumes "1 \<le> step" "nat ((stop - start + step - 1) div step) = 0"
  shows "\<not> start < stop"
proof
  assume "start < stop"
  then have "step \<le> stop - start + step - 1" by simp
  then have "step div step \<le> (stop - start + step - 1) div step"
    using assms(1) by (intro zdiv_mono1) simp_all
  then have "1 \<le> (stop - start + step - 1) div step" using assms(1) by simp
  with assms(2) show False by simp
qed

lemma ceil_count_pos:
  fixes step :: int
  assumes "1 \<le> step" "nat ((stop - start + step - 1) div step) = Suc n"
  shows "start < stop"
proof (rule ccontr)
  assume "\<not> start < stop"
  then have lt: "stop - start + step - 1 < step" by simp
  have "(stop - start + step - 1) div step \<le> 0"
  proof (cases "stop - start + step - 1 < 0")
    case True
    then have "(stop - start + step - 1) div step < 0"
      using assms(1) by (simp add: pos_imp_zdiv_neg_iff)
    then show ?thesis by simp
  next
    case False
    then have "(stop - start + step - 1) div step = 0"
      using lt by (simp add: div_pos_pos_trivial)
    then show ?thesis by simp
  qed
  with assms(2) show False by simp
qed

lemma ceil_count_step:
  fixes step :: int
  assumes "1 \<le> step"
  shows "(stop - (start + step) + step - 1) div step = (stop - start + step - 1) div step - 1"
proof -
  have ne: "step \<noteq> 0" using assms by simp
  have "stop - start + step - 1 = (stop - (start + step) + step - 1) + step" by simp
  then have "(stop - start + step - 1) div step = ((stop - (start + step) + step - 1) + step) div step"
    by (rule arg_cong)
  also have "\<dots> = (stop - (start + step) + step - 1) div step + 1"
    using ne by (rule div_add_self2)
  finally show ?thesis by simp
qed

lemma arange_loop_pos:
  "1 \<le> step \<Longrightarrow> nat ((stop - start + step - 1) div step) = n \<Longrightarrow>
   - (2 ^ 53) \<le> start \<Longrightarrow> stop + step \<le> 2 ^ 53 \<Longrightarrow> i + int n \<le> 2 ^ 32 - 1 \<Longrightarrow>
   arange_loop (Finite start) stop step i result =
     Some (result @ map (\<lambda>k. Finite (start + int k * step)) [0..<n])"
proof (induction n arbitrary: start i result)
  case 0
  then have "\<not> start < stop" by (intro ceil_count_zero)
  then show ?case by (subst arange_loop.simps) simp
next
  case (Suc n)
  have lt: "start < stop" using Suc.prems(1,2) by (rule ceil_count_pos)
  have n: "nat ((stop - (start + step) + step - 1) div step) = n"
    using Suc.prems(2) ceil_count_step[OF Suc.prems(1), of stop start] by simp
  have "\<bar>start + step\<bar> \<le> 2 ^ 53" using lt Suc.prems(1,3,4) by simp
  then have exact: "js_add (Finite start) step = Finite (start + step)"
    by (simp add: round64_exact)
  have idx: "i < 2 ^ 32 - 1" using Suc.prems(5) by simp
  then have app: "js_append result i (Finite start) = result @ [Finite start]"
    by (simp add: js_append_def)
  have lo: "- (2 ^ 53) \<le> start + step" using Suc.prems(1,3) by simp
  have cnt: "(i + 1) + int n \<le> 2 ^ 32 - 1" using Suc.prems(5) by simp
  have "arange_loop (Finite (start + step)) stop step (i + 1) (result @ [Finite start]) =
     Some ((result @ [Finite start]) @ map (\<lambda>k. Finite ((start + step) + int k * step)) [0..<n])"
    by (rule Suc.IH[OF Suc.prems(1) n lo Suc.prems(4) cnt])
  moreover have "map (\<lambda>k. Finite (start + int k * step)) [0..<Suc n] =
      Finite start # map (\<lambda>k. Finite ((start + step) + int k * step)) [0..<n]"
  proof -
    have "[0..<Suc n] = 0 # map Suc [0..<n]"
      by (simp add: upt_conv_Cons map_Suc_upt del: upt_Suc)
    then show ?thesis by (simp add: algebra_simps del: upt_Suc)
  qed
  ultimately show ?case using lt
    by (subst arange_loop.simps) (simp add: exact app del: upt_Suc js_add.simps)
qed

lemma arange_index_bound:
  fixes step :: int
  assumes "1 \<le> step"
  shows "(start + int k * step < stop) = (k < nat ((stop - start + step - 1) div step))"
proof -
  define x where "x = stop - start + step - 1"
  define q where "q = x div step"
  define r where "r = x mod step"
  have pos: "0 < step" using assms by simp
  have x: "x = q * step + r" unfolding q_def r_def by simp
  have r: "0 \<le> r" "r < step" unfolding r_def using pos by simp_all
  show ?thesis
  proof (cases "int k < q")
    case True
    then have "int k + 1 \<le> q" by simp
    then have "(int k + 1) * step \<le> q * step" using pos by (intro mult_right_mono) simp_all
    then have "int k * step + step \<le> q * step" by (simp add: algebra_simps)
    with x r have "int k * step + step \<le> x" by linarith
    then have "start + int k * step < stop" unfolding x_def by simp
    moreover have "k < nat q" using True by simp
    ultimately show ?thesis unfolding q_def x_def by simp
  next
    case False
    then have "q \<le> int k" by simp
    then have "q * step \<le> int k * step" using pos by (intro mult_right_mono) simp_all
    with x r have "x < int k * step + step" by linarith
    then have "\<not> start + int k * step < stop" unfolding x_def by simp
    moreover have "\<not> k < nat q" using False by simp
    ultimately show ?thesis unfolding q_def x_def by simp
  qed
qed

lemma arange_values_set:
  fixes step :: int
  assumes "1 \<le> step"
  shows "set (map (\<lambda>k. start + int k * step) [0..<nat ((stop - start + step - 1) div step)]) =
         {v. \<exists>k::nat. v = start + int k * step \<and> v < stop}"
proof (intro set_eqI iffI)
  fix v
  assume "v \<in> set (map (\<lambda>k. start + int k * step) [0..<nat ((stop - start + step - 1) div step)])"
  then obtain k where k: "k < nat ((stop - start + step - 1) div step)" "v = start + int k * step"
    by (auto simp del: upt_Suc)
  from k(1) have "start + int k * step < stop"
    by (simp only: arange_index_bound[OF assms])
  with k(2) show "v \<in> {v. \<exists>k::nat. v = start + int k * step \<and> v < stop}"
    by blast
next
  fix v
  assume "v \<in> {v. \<exists>k::nat. v = start + int k * step \<and> v < stop}"
  then obtain k :: nat where k: "v = start + int k * step" "v < stop" by blast
  then have "start + int k * step < stop" by simp
  then have "k < nat ((stop - start + step - 1) div step)"
    by (simp only: arange_index_bound[OF assms])
  then have "k \<in> set [0..<nat ((stop - start + step - 1) div step)]" by simp
  then show "v \<in> set (map (\<lambda>k. start + int k * step) [0..<nat ((stop - start + step - 1) div step)])"
    unfolding k(1) set_map by (rule imageI)
qed

lemma arange_values_sorted:
  fixes step :: int
  assumes "1 \<le> step"
  shows "sorted_wrt (<) (map (\<lambda>k. start + int k * step) [0..<n])"
proof -
  have "i < j \<Longrightarrow> start + int i * step < start + int j * step" for i j :: nat
    using assms by (simp add: mult_strict_right_mono)
  then show ?thesis by (simp add: sorted_wrt_iff_nth_less)
qed

lemma arange_empty:
  fixes step :: int
  assumes "1 \<le> step" "stop \<le> start"
  shows "nat ((stop - start + step - 1) div step) = 0"
  using arange_index_bound[OF assms(1), of start 0 stop] assms(2) by simp


text \<open>
  Claim C10. For all integers \<open>start\<close>, \<open>stop\<close> and every integer \<open>step \<ge> 1\<close> with
  \<open>- 2 ^ 53 \<le> start\<close> and \<open>stop + step \<le> 2 ^ 53\<close> (so that every sum the loop forms is
  exact in double precision) and with fewer than \<open>2 ^ 32\<close> values to produce,
  \<open>arange start stop step\<close> returns (so its loop terminates), and the values are exactly
  the \<open>start + k * step\<close> with \<open>k = 0, 1, 2, ...\<close> that are below \<open>stop\<close>, in
  increasing order; the result is empty when \<open>stop \<le> start\<close>. The call with the single
  argument \<open>n\<close> is the call \<open>arange 0 n 1\<close>. With \<open>step \<le> 0\<close> and
  \<open>- 2 ^ 53 \<le> start < stop \<le> 2 ^ 53\<close> the loop does not terminate.
\<close>

theorem arange_positive_step:
  "(1 \<le> step \<and> - (2 ^ 53) \<le> start \<and> stop + step \<le> 2 ^ 53
      \<and> (stop - start + step - 1) div step < 2 ^ 32 \<longrightarrow>
      (\<exists>vals. arange (StartStopStep start stop step) = Some (map Finite vals, None)
         \<and> vals = map (\<lambda>k. start + int k * step) [0..<nat ((stop - start + step - 1) div step)]
         \<and> set vals = {v. \<exists>k::nat. v = start + int k * step \<and> v < stop}
         \<and> sorted_wrt (<) vals
         \<and> (stop \<le> start \<longrightarrow> vals = [])))
   \<and> arange (Stop n) = arange (StartStopStep 0 n 1)
   \<and> (step \<le> 0 \<and> - (2 ^ 53) \<le> start \<and> start < stop \<and> stop \<le> 2 ^ 53 \<longrightarrow>
        arange (StartStopStep start stop step) = None)"
proof (intro conjI impI)
  assume h: "1 \<le> step \<and> - (2 ^ 53) \<le> start \<and> stop + step \<le> 2 ^ 53
      \<and> (stop - start + step - 1) div step < 2 ^ 32"
  then have s: "1 \<le> step" and lo: "- (2 ^ 53) \<le> start" and hi: "stop + step \<le> 2 ^ 53"
    and c: "(stop - start + step - 1) div step < 2 ^ 32" by simp_all
  let ?vals = "map (\<lambda>k. start + int k * step) [0..<nat ((stop - start + step - 1) div step)]"
  have cnt: "0 + int (nat ((stop - start + step - 1) div step)) \<le> 2 ^ 32 - 1"
    using c by simp
  have l: "arange_loop (Finite start) stop step 0 [] =
      Some ([] @ map (\<lambda>k. Finite (start + int k * step))
                    [0..<nat ((stop - start + step - 1) div step)])"
    using s refl lo hi cnt by (rule arange_loop_pos)
  have 1: "arange (StartStopStep start stop step) = Some (map Finite ?vals, None)"
    using l by (simp add: arange_main_def comp_def del: upt_Suc)
  have 2: "set ?vals = {v. \<exists>k::nat. v = start + int k * step \<and> v < stop}"
    using s by (rule arange_values_set)
  have 3: "sorted_wrt (<) ?vals"
    using s by (rule arange_values_sorted)
  have 4: "stop \<le> start \<longrightarrow> ?vals = []"
    using arange_empty[OF s, of stop start] by simp
  show "\<exists>vals. arange (StartStopStep start stop step) = Some (map Finite vals, None)
         \<and> vals = map (\<lambda>k. start + int k * step) [0..<nat ((stop - start + step - 1) div step)]
         \<and> set vals = {v. \<exists>k::nat. v = start + int k * step \<and> v < stop}
         \<and> sorted_wrt (<) vals
         \<and> (stop \<le> start \<longrightarrow> vals = [])"
    by (rule exI[of _ ?vals]) (intro conjI refl 1 2 3 4)
next
  show "arange (Stop n) = arange (StartStopStep 0 n 1)" by simp
next
  assume h: "step \<le> 0 \<and> - (2 ^ 53) \<le> start \<and> start < stop \<and> stop \<le> 2 ^ 53"
  then have "js_less (Finite start) stop" and "- (2 ^ 53) < stop" by simp_all
  with h have "arange_loop (Finite start) stop step 0 [] = None"
    by (intro arange_loop_diverges) simp_all
  then show "arange (StartStopStep start stop step) = None"
    by (simp add: arange_main_def)
qed


theorem arange_positive_step_witness:
  "(1::int) \<le> 3 \<and> - (2 ^ 53) \<le> (2::int) \<and> (11::int) + 3 \<le> 2 ^ 53
   \<and> ((11::int) - 2 + 3 - 1) div 3 < 2 ^ 32
   \<and> arange (StartStopStep 2 11 3) = Some ([Finite 2, Finite 5, Finite 8], None)
   \<and> arange (Stop 4) = arange (StartStopStep 0 4 1)
   \<and> (0::int) \<le> 0 \<and> - (2 ^ 53) \<le> (0::int) \<and> (0::int) < 1 \<and> (1::int) \<le> 2 ^ 53
   \<and> arange (StartStopStep 0 1 0) = None"
proof -
  have h: "(1::int) \<le> 3 \<and> - (2 ^ 53) \<le> (2::int) \<and> (11::int) + 3 \<le> 2 ^ 53
     \<and> ((11::int) - 2 + 3 - 1) div 3 < 2 ^ 32" by simp
  obtain vals where v: "arange (StartStopStep 2 11 3) = Some (map Finite vals, None)
         \<and> vals = map (\<lambda>k. 2 + int k * 3) [0..<nat ((11 - 2 + 3 - 1) div 3)]
         \<and> set vals = {v. \<exists>k::nat. v = 2 + int k * 3 \<and> v < 11}
         \<and> sorted_wrt (<) vals
         \<and> ((11::int) \<le> 2 \<longrightarrow> vals = [])"
    using arange_positive_step[of 3 2 11 0, THEN conjunct1, rule_format, OF h] ..
  note v1 = v[THEN conjunct1] and v2 = v[THEN conjunct2, THEN conjunct1]
  have "vals = [2, 5, 8]" unfolding v2 by (simp add: eval_nat_numeral)
  then have a: "arange (StartStopStep 2 11 3) = Some ([Finite 2, Finite 5, Finite 8], None)"
    using v1 by simp
  have b: "arange (Stop 4) = arange (StartStopStep 0 4 1)"
    using arange_positive_step[of 1 0 4 4, THEN conjunct2, THEN conjunct1] .
  have g: "(0::int) \<le> 0 \<and> - (2 ^ 53) \<le> (0::int) \<and> (0::int) < 1 \<and> (1::int) \<le> 2 ^ 53" by simp
  have c: "arange (StartStopStep 0 1 0) = None"
    using arange_positive_step[of 0 0 1 0, THEN conjunct2, THEN conjunct2, rule_format, OF g] .
  show ?thesis using h a b c g by simp
qed

text \<open>
  Beyond \<open>2 ^ 53\<close> the claim fails: with \<open>start = 2 ^ 53\<close>, \<open>stop = 2 ^ 53 + 2\<close> and
  \<open>step = 1\<close>, all three doubles, the loop variable never moves and the call does not
  return, although \<open>step \<ge> 1\<close>.
\<close>

theorem arange_stalls_counterexample:
  "(1::int) \<le> 1 \<and> arange (StartStopStep (2 ^ 53) (2 ^ 53 + 2) 1) = None"
  using arange_loop_stalls[of 0 "[]"] by (simp add: arange_main_def)

section \<open>Properties of concatenate\<close>

lemma has_shape_ArrD:
  "has_shape v (n # s) \<Longrightarrow> \<exists>xs. v = Arr xs \<and> length xs = n \<and> (\<forall>x \<in> set xs. has_shape x s)"
  by (cases v) auto

lemma has_shape_getShape:
  "has_shape v s \<Longrightarrow> 0 \<notin> set (butlast s) \<Longrightarrow> getShape v = s"
proof (induction v arbitrary: s)
  case (Num x)
  then show ?case by simp
next
  case Undef
  then show ?case by simp
next
  case (Arr xs)
  from Arr.prems(1) obtain n s' where s: "s = n # s'" and n: "length xs = n"
    and el: "\<forall>x \<in> set xs. has_shape x s'"
    by (cases s) auto
  show ?case
  proof (cases xs)
    case Nil
    with n have "n = 0" by simp
    with Arr.prems(2) s have "s' = []" by (cases s') auto
    with Nil s n show ?thesis by simp
  next
    case (Cons x xs')
    have "0 \<notin> set (butlast s')" using Arr.prems(2) s by (cases s') auto
    moreover have "has_shape x s'" using el Cons by simp
    moreover have "x \<in> set xs" using Cons by simp
    ultimately have "getShape x = s'" by (intro Arr.IH)
    with Cons s n show ?thesis by simp
  qed
qed

lemma getShape_butlast_nonzero: "0 \<notin> set (butlast (getShape v))"
proof (induction v)
  case (Arr xs)
  show ?case
  proof (cases xs)
    case Nil
    then show ?thesis by simp
  next
    case (Cons x xs')
    then have "0 \<notin> set (butlast (getShape x))" using Arr.IH by simp
    with Cons show ?thesis by (cases "getShape x") auto
  qed
qed simp_all

lemma has_shape_join:
  "has_shape m (p @ [c]) \<Longrightarrow> has_shape a (p @ [c']) \<Longrightarrow>
   has_shape (join (length p) m a) (p @ [c + c'])"
proof (induction p arbitrary: m a)
  case Nil
  from Nil(1) obtain xs where m: "m = Arr xs" "length xs = c" "\<forall>x \<in> set xs. has_shape x []"
    using has_shape_ArrD by fastforce
  from Nil(2) obtain ys where a: "a = Arr ys" "length ys = c'" "\<forall>x \<in> set ys. has_shape x []"
    using has_shape_ArrD by fastforce
  from m a show ?case by auto
next
  case (Cons n p)
  from Cons.prems(1) obtain xs where m: "m = Arr xs" "length xs = n"
      "\<forall>x \<in> set xs. has_shape x (p @ [c])"
    using has_shape_ArrD by fastforce
  from Cons.prems(2) obtain ys where a: "a = Arr ys" "length ys = n"
      "\<forall>x \<in> set ys. has_shape x (p @ [c'])"
    using has_shape_ArrD by fastforce
  have "has_shape (join (length p) x y) (p @ [c + c'])" if "(x, y) \<in> set (zip xs ys)" for x y
    using that m(3) a(3) by (intro Cons.IH) (auto dest: set_zip_leftD set_zip_rightD)
  with m a show ?case by auto
qed


lemma zip_drop_step:
  "i < length xs \<Longrightarrow> i < length ys \<Longrightarrow>
   zip (drop i xs) (drop i ys) = (xs ! i, ys ! i) # zip (drop (Suc i) xs) (drop (Suc i) ys)"
  by (simp add: Cons_nth_drop_Suc[symmetric])

lemma concat_cols_join:
  assumes "length mcs = n" "length acs = n"
    and "\<forall>x \<in> set mcs. \<exists>xs. x = Arr xs" "\<forall>y \<in> set acs. \<exists>ys. y = Arr ys"
  shows "colI \<le> n \<Longrightarrow> length rv = n \<Longrightarrow>
    concat_cols (Arr mcs) (Arr acs) n colI (Arr rv) =
      Inr (Arr (take colI rv @ map (\<lambda>(x, y). join 0 x y) (zip (drop colI mcs) (drop colI acs))))"
proof (induction "n - colI" arbitrary: colI rv)
  case 0
  then have "colI = n" by simp
  with 0 assms show ?case by (subst concat_cols.simps) simp
next
  case (Suc k)
  then have lt: "colI < n" by simp
  obtain xs where xs: "mcs ! colI = Arr xs" using assms(1,3) lt by (metis nth_mem)
  obtain ys where ys: "acs ! colI = Arr ys" using assms(2,4) lt by (metis nth_mem)
  have ih: "concat_cols (Arr mcs) (Arr acs) n (colI + 1) (Arr (rv[colI := Arr (xs @ ys)])) =
      Inr (Arr (take (colI + 1) (rv[colI := Arr (xs @ ys)]) @
           map (\<lambda>(x, y). join 0 x y) (zip (drop (colI + 1) mcs) (drop (colI + 1) acs))))"
    using Suc.hyps(2) lt Suc.prems(2) by (intro Suc.hyps(1)) simp_all
  have tk: "take (colI + 1) (rv[colI := Arr (xs @ ys)]) = take colI rv @ [Arr (xs @ ys)]"
    using lt Suc.prems(2) by (simp add: take_Suc_conv_app_nth)
  have zp: "zip (drop colI mcs) (drop colI acs) =
      (Arr xs, Arr ys) # zip (drop (colI + 1) mcs) (drop (colI + 1) acs)"
    using zip_drop_step[of colI mcs acs] lt assms(1,2) xs ys by simp
  show ?case
    apply (subst concat_cols.simps)
    using lt assms(1,2) Suc.prems(2) xs ys ih tk zp by simp
qed

lemma deref_ArrD: "deref os p = Arr xs \<Longrightarrow> p < length os \<and> os ! p = Arr xs"
  by (cases "p < length os") (simp_all add: deref_def)

lemma deref_update:
  "m < length os \<Longrightarrow> deref (os[m := v]) b = (if b = m then v else deref os b)"
  by (simp add: deref_def)

lemma deref_append: "b < length os \<Longrightarrow> deref (os @ ext) b = deref os b"
  by (simp add: deref_def nth_append)

lemma deref_new: "deref (os @ [v]) (length os) = v"
  by (simp add: deref_def)

lemma regular_valid: "regular (deref os p) \<Longrightarrow> p < length os"
  by (cases "p < length os") (simp_all add: deref_def regular_def)

text \<open>
  The rank 2 loop leaves at \<open>m\<close> the rows of \<open>m\<close> each followed by the row of \<open>a\<close>, also
  when \<open>a\<close> is \<open>m\<close> itself: a row is read before it is replaced.
\<close>

lemma concat_rows_join:
  "row \<le> n \<Longrightarrow> deref os m = Arr ms \<Longrightarrow> deref os a = Arr as \<Longrightarrow>
   length ms = n \<Longrightarrow> length as = n \<Longrightarrow>
   \<forall>x \<in> set (drop row ms). \<exists>xs. x = Arr xs \<Longrightarrow>
   \<forall>y \<in> set (drop row as). \<exists>ys. y = Arr ys \<Longrightarrow>
   concat_rows os m a n row =
     Inr (os[m := Arr (take row ms @
            map (\<lambda>(x, y). join 0 x y) (zip (drop row ms) (drop row as)))])"
proof (induction "n - row" arbitrary: row os ms as)
  case 0
  then have "row = n" by simp
  moreover have "os[m := Arr ms] = os" using deref_ArrD[OF "0.prems"(2)] by (metis list_update_id)
  ultimately show ?case using "0.prems" by (subst concat_rows.simps) simp
next
  case (Suc k)
  then have lt: "row < n" by simp
  note dm = deref_ArrD[OF Suc.prems(2)]
  have "ms ! row \<in> set (drop row ms)"
    using lt Suc.prems(4) by (metis Cons_nth_drop_Suc list.set_intros(1))
  then obtain xs where xs: "ms ! row = Arr xs" using Suc.prems(6) by blast
  have "as ! row \<in> set (drop row as)"
    using lt Suc.prems(5) by (metis Cons_nth_drop_Suc list.set_intros(1))
  then obtain ys where ys: "as ! row = Arr ys" using Suc.prems(7) by blast
  let ?ms = "ms[row := Arr (xs @ ys)]"
  let ?os = "os[m := Arr ?ms]"
  let ?as = "if a = m then ?ms else as"
  have d1: "deref ?os m = Arr ?ms" using dm by (simp add: deref_update)
  have d2: "deref ?os a = Arr ?as" using dm Suc.prems(3) by (simp add: deref_update)
  have same: "a = m \<Longrightarrow> as = ms" using Suc.prems(2,3) by simp
  have l1: "length ?ms = n" using Suc.prems(4) by simp
  have l2: "length ?as = n" using Suc.prems(4,5) by simp
  have dr: "drop (row + 1) ?ms = drop (row + 1) ms" by simp
  have dra: "drop (row + 1) ?as = drop (row + 1) as" using same by simp
  have r1: "\<forall>x \<in> set (drop (row + 1) ?ms). \<exists>xs. x = Arr xs"
    unfolding dr using Suc.prems(6) set_drop_subset_set_drop[of row "row + 1" ms] by auto
  have r2: "\<forall>y \<in> set (drop (row + 1) ?as). \<exists>ys. y = Arr ys"
    unfolding dra using Suc.prems(7) set_drop_subset_set_drop[of row "row + 1" as] by auto
  have k: "k = n - (row + 1)" using Suc.hyps(2) by simp
  have le: "row + 1 \<le> n" using lt by simp
  have ih: "concat_rows ?os m a n (row + 1) =
      Inr (?os[m := Arr (take (row + 1) ?ms @
            map (\<lambda>(x, y). join 0 x y) (zip (drop (row + 1) ?ms) (drop (row + 1) ?as)))])"
    by (rule Suc.hyps(1)[OF k le d1 d2 l1 l2 r1 r2])
  have tk: "take (row + 1) ?ms = take row ms @ [Arr (xs @ ys)]"
    using lt Suc.prems(4) by (simp add: take_Suc_conv_app_nth)
  have zp: "zip (drop row ms) (drop row as) =
      (Arr xs, Arr ys) # zip (drop (row + 1) ms) (drop (row + 1) as)"
    using zip_drop_step[of row ms as] lt Suc.prems(4,5) xs ys by simp
  have res: "concat_rows ?os m a n (row + 1) =
      Inr (os[m := Arr (take row ms @
            map (\<lambda>(x, y). join 0 x y) (zip (drop row ms) (drop row as)))])"
    unfolding ih dr dra tk zp by simp
  have g1: "js_get (deref os m) row = Inr (Arr xs)"
    using Suc.prems(2,4) lt xs by simp
  have g2: "js_get (deref os a) row = Inr (Arr ys)"
    using Suc.prems(3,5) lt ys by simp
  have st: "js_set (deref os m) row (Arr (xs @ ys)) = Inr (Arr ?ms)"
    using Suc.prems(2,4) lt by simp
  show ?case
    by (subst concat_rows.simps) (simp only: lt if_True g1 g2 st js_concat.simps sum.case res)
qed

lemma concat_cols_all:
  assumes "length mcs = n" "length acs = n"
    and "\<forall>x \<in> set mcs. \<exists>xs. x = Arr xs" "\<forall>y \<in> set acs. \<exists>ys. y = Arr ys"
  shows "concat_cols (Arr mcs) (Arr acs) n 0 (Arr (replicate n Undef)) =
           Inr (join 1 (Arr mcs) (Arr acs))"
  using concat_cols_join[OF assms, of 0 "replicate n Undef"] by simp

lemma concat_planes_join:
  "rowI \<le> n0 \<Longrightarrow> deref os m = Arr ms \<Longrightarrow> deref os a = Arr as \<Longrightarrow>
   length ms = n0 \<Longrightarrow> length as = n0 \<Longrightarrow>
   \<forall>x \<in> set (drop rowI ms). \<exists>xs. x = Arr xs \<and> length xs = n1 \<and> (\<forall>c \<in> set xs. \<exists>zs. c = Arr zs) \<Longrightarrow>
   \<forall>y \<in> set (drop rowI as). \<exists>ys. y = Arr ys \<and> length ys = n1 \<and> (\<forall>c \<in> set ys. \<exists>zs. c = Arr zs) \<Longrightarrow>
   concat_planes os m a n0 n1 rowI =
     Inr (os[m := Arr (take rowI ms @
            map (\<lambda>(x, y). join 1 x y) (zip (drop rowI ms) (drop rowI as)))])"
proof (induction "n0 - rowI" arbitrary: rowI os ms as)
  case 0
  then have "rowI = n0" by simp
  moreover have "os[m := Arr ms] = os" using deref_ArrD[OF "0.prems"(2)] by (metis list_update_id)
  ultimately show ?case using "0.prems" by (subst concat_planes.simps) simp
next
  case (Suc k)
  then have lt: "rowI < n0" by simp
  note dm = deref_ArrD[OF Suc.prems(2)]
  have "ms ! rowI \<in> set (drop rowI ms)"
    using lt Suc.prems(4) by (metis Cons_nth_drop_Suc list.set_intros(1))
  then obtain xs where xs: "ms ! rowI = Arr xs" "length xs = n1" "\<forall>c \<in> set xs. \<exists>zs. c = Arr zs"
    using Suc.prems(6) by blast
  have "as ! rowI \<in> set (drop rowI as)"
    using lt Suc.prems(5) by (metis Cons_nth_drop_Suc list.set_intros(1))
  then obtain ys where ys: "as ! rowI = Arr ys" "length ys = n1" "\<forall>c \<in> set ys. \<exists>zs. c = Arr zs"
    using Suc.prems(7) by blast
  let ?r = "join 1 (Arr xs) (Arr ys)"
  have inner: "concat_cols (Arr xs) (Arr ys) n1 0 (Arr (replicate n1 Undef)) = Inr ?r"
    using xs ys by (intro concat_cols_all) simp_all
  let ?ms = "ms[rowI := ?r]"
  let ?os = "os[m := Arr ?ms]"
  let ?as = "if a = m then ?ms else as"
  have d1: "deref ?os m = Arr ?ms" using dm by (simp add: deref_update)
  have d2: "deref ?os a = Arr ?as" using dm Suc.prems(3) by (simp add: deref_update)
  have same: "a = m \<Longrightarrow> as = ms" using Suc.prems(2,3) by simp
  have l1: "length ?ms = n0" using Suc.prems(4) by simp
  have l2: "length ?as = n0" using Suc.prems(4,5) by simp
  have dr: "drop (rowI + 1) ?ms = drop (rowI + 1) ms" by simp
  have dra: "drop (rowI + 1) ?as = drop (rowI + 1) as" using same by simp
  have r1: "\<forall>x \<in> set (drop (rowI + 1) ?ms).
      \<exists>xs. x = Arr xs \<and> length xs = n1 \<and> (\<forall>c \<in> set xs. \<exists>zs. c = Arr zs)"
    unfolding dr using Suc.prems(6) set_drop_subset_set_drop[of rowI "rowI + 1" ms] by auto
  have r2: "\<forall>y \<in> set (drop (rowI + 1) ?as).
      \<exists>ys. y = Arr ys \<and> length ys = n1 \<and> (\<forall>c \<in> set ys. \<exists>zs. c = Arr zs)"
    unfolding dra using Suc.prems(7) set_drop_subset_set_drop[of rowI "rowI + 1" as] by auto
  have k: "k = n0 - (rowI + 1)" using Suc.hyps(2) by simp
  have le: "rowI + 1 \<le> n0" using lt by simp
  have ih: "concat_planes ?os m a n0 n1 (rowI + 1) =
      Inr (?os[m := Arr (take (rowI + 1) ?ms @
            map (\<lambda>(x, y). join 1 x y) (zip (drop (rowI + 1) ?ms) (drop (rowI + 1) ?as)))])"
    by (rule Suc.hyps(1)[OF k le d1 d2 l1 l2 r1 r2])
  have tk: "take (rowI + 1) ?ms = take rowI ms @ [?r]"
    using lt Suc.prems(4) by (simp add: take_Suc_conv_app_nth)
  have zp: "zip (drop rowI ms) (drop rowI as) =
      (Arr xs, Arr ys) # zip (drop (rowI + 1) ms) (drop (rowI + 1) as)"
    using zip_drop_step[of rowI ms as] lt Suc.prems(4,5) xs(1) ys(1) by simp
  have res: "concat_planes ?os m a n0 n1 (rowI + 1) =
      Inr (os[m := Arr (take rowI ms @
            map (\<lambda>(x, y). join 1 x y) (zip (drop rowI ms) (drop rowI as)))])"
    unfolding ih dr dra tk zp by (simp del: join.simps)
  have g1: "js_get (deref os m) rowI = Inr (Arr xs)"
    using Suc.prems(2,4) lt xs(1) by simp
  have g2: "js_get (deref os a) rowI = Inr (Arr ys)"
    using Suc.prems(3,5) lt ys(1) by simp
  have st: "js_set (deref os m) rowI ?r = Inr (Arr ?ms)"
    using Suc.prems(2,4) lt by simp
  show ?case
    by (subst concat_planes.simps) (simp only: lt if_True g1 g2 inner st sum.case res)
qed

lemma has_shape_1D: "has_shape v [c] \<Longrightarrow> \<exists>xs. v = Arr xs \<and> length xs = c"
  using has_shape_ArrD by blast

lemma has_shape_2D:
  "has_shape v [n, c] \<Longrightarrow> \<exists>xs. v = Arr xs \<and> length xs = n \<and> (\<forall>x \<in> set xs. \<exists>ys. x = Arr ys)"
  using has_shape_ArrD by (metis)

lemma has_shape_3D:
  "has_shape v [n0, n1, c] \<Longrightarrow>
   \<exists>xs. v = Arr xs \<and> length xs = n0 \<and>
     (\<forall>x \<in> set xs. \<exists>ys. x = Arr ys \<and> length ys = n1 \<and> (\<forall>c \<in> set ys. \<exists>zs. c = Arr zs))"
proof -
  assume "has_shape v [n0, n1, c]"
  then obtain xs where xs: "v = Arr xs" "length xs = n0" "\<forall>x \<in> set xs. has_shape x [n1, c]"
    using has_shape_ArrD by blast
  have "\<exists>ys. x = Arr ys \<and> length ys = n1 \<and> (\<forall>c \<in> set ys. \<exists>zs. c = Arr zs)"
    if "x \<in> set xs" for x
    using xs(3) that has_shape_2D by blast
  with xs show ?thesis by blast
qed


lemma step_rank_diff:
  "length (getShape (deref os m)) \<noteq> length (getShape (deref os a)) \<Longrightarrow>
   concat_step os m a = Inl ValueError"
  by (simp add: concat_step_def Let_def)

lemma step_rank_other:
  "length (getShape (deref os m)) \<notin> {1, 2, 3} \<Longrightarrow> concat_step os m a = Inl ValueError"
  by (simp add: concat_step_def Let_def)

lemma step_rank1:
  assumes "getShape (deref os m) = [c]" "getShape (deref os a) = [c']"
    "has_shape (deref os m) [c]" "has_shape (deref os a) [c']"
  shows "concat_step os m a = Inr (os @ [join 0 (deref os m) (deref os a)], length os)"
proof -
  obtain xs ys where "deref os m = Arr xs" "deref os a = Arr ys"
    using assms(3,4) has_shape_1D by blast
  then show ?thesis using assms(1,2) by (simp add: concat_step_def Let_def new_obj_def)
qed

lemma step_rank2:
  assumes "getShape (deref os m) = [n, c]" "getShape (deref os a) = [n', c']"
    "has_shape (deref os m) [n, c]" "has_shape (deref os a) [n', c']"
  shows "concat_step os m a =
    (if n = n' then Inr (os[m := join 1 (deref os m) (deref os a)], m) else Inl ValueError)"
proof (cases "n = n'")
  case False
  then show ?thesis using assms(1,2)
    by (simp add: concat_step_def Let_def js_index_def)
next
  case True
  obtain ms where ms: "deref os m = Arr ms" "length ms = n" "\<forall>x \<in> set ms. \<exists>ys. x = Arr ys"
    using assms(3) has_shape_2D by blast
  obtain as where as: "deref os a = Arr as" "length as = n" "\<forall>x \<in> set as. \<exists>ys. x = Arr ys"
    using assms(4) True has_shape_2D by blast
  have "concat_rows os m a n 0 =
      Inr (os[m := Arr (take 0 ms @ map (\<lambda>(x, y). join 0 x y) (zip (drop 0 ms) (drop 0 as)))])"
    using ms as by (intro concat_rows_join) simp_all
  then have "concat_rows os m a n 0 = Inr (os[m := join 1 (deref os m) (deref os a)])"
    using ms(1) as(1) by simp
  moreover have "concat_step os m a =
      (case concat_rows os m a n 0 of Inl e \<Rightarrow> Inl e | Inr os' \<Rightarrow> Inr (os', m))"
    using assms(1,2) True by (simp add: concat_step_def Let_def js_index_def)
  ultimately show ?thesis using True by simp
qed

lemma step_rank3:
  assumes "getShape (deref os m) = [n0, n1, c]" "getShape (deref os a) = [n0', n1', c']"
    "has_shape (deref os m) [n0, n1, c]" "has_shape (deref os a) [n0', n1', c']"
  shows "concat_step os m a =
    (if n0 = n0' \<and> n1 = n1' then Inr (os[m := join 2 (deref os m) (deref os a)], m)
     else Inl ValueError)"
proof (cases "n0 = n0' \<and> n1 = n1'")
  case False
  then show ?thesis using assms(1,2)
    by (auto simp add: concat_step_def Let_def js_index_def)
next
  case True
  obtain ms where ms: "deref os m = Arr ms" "length ms = n0"
      "\<forall>x \<in> set ms. \<exists>ys. x = Arr ys \<and> length ys = n1 \<and> (\<forall>c \<in> set ys. \<exists>zs. c = Arr zs)"
    using assms(3) has_shape_3D by blast
  obtain as where as: "deref os a = Arr as" "length as = n0"
      "\<forall>x \<in> set as. \<exists>ys. x = Arr ys \<and> length ys = n1 \<and> (\<forall>c \<in> set ys. \<exists>zs. c = Arr zs)"
    using assms(4) True has_shape_3D by blast
  have "concat_planes os m a n0 n1 0 =
      Inr (os[m := Arr (take 0 ms @ map (\<lambda>(x, y). join 1 x y) (zip (drop 0 ms) (drop 0 as)))])"
    using ms as by (intro concat_planes_join) simp_all
  then have "concat_planes os m a n0 n1 0 = Inr (os[m := join 2 (deref os m) (deref os a)])"
    using ms(1) as(1) by (simp add: numeral_2_eq_2)
  moreover have "concat_step os m a =
      (case concat_planes os m a n0 n1 0 of Inl e \<Rightarrow> Inl e | Inr os' \<Rightarrow> Inr (os', m))"
    using assms(1,2) True by (simp add: concat_step_def Let_def js_index_def)
  ultimately show ?thesis using True by simp
qed

lemma list_len1: "length s = 1 \<Longrightarrow> \<exists>c. s = [c]"
  by (cases s) auto

lemma list_len2: "length s = 2 \<Longrightarrow> \<exists>n c. s = [n, c]"
  by (cases s; cases "tl s") auto

lemma list_len3: "length s = 3 \<Longrightarrow> \<exists>n0 n1 c. s = [n0, n1, c]"
  by (cases s; cases "tl s"; cases "tl (tl s)") auto

text \<open>
  One step on regular arrays: an error unless the two agree in rank, 1, 2 or 3, and on
  all axes but the last; else the join of the two as they are when the step begins, in a
  new array for rank 1 and in place of \<open>m\<close> otherwise.
\<close>

lemma concat_step_regular:
  assumes "regular (deref os m)" "regular (deref os a)"
  shows "concat_step os m a =
    (if length (getShape (deref os m)) = length (getShape (deref os a))
        \<and> length (getShape (deref os m)) \<in> {1, 2, 3}
        \<and> butlast (getShape (deref os m)) = butlast (getShape (deref os a))
     then Inr (if length (getShape (deref os m)) = 1
               then (os @ [join 0 (deref os m) (deref os a)], length os)
               else (os[m := join (length (getShape (deref os m)) - 1) (deref os m) (deref os a)], m))
     else Inl ValueError)"
proof -
  let ?M = "deref os m" and ?A = "deref os a"
  consider (diff) "length (getShape ?M) \<noteq> length (getShape ?A)"
    | (other) "length (getShape ?M) \<notin> {1, 2, 3}"
    | (one) "length (getShape ?M) = 1" "length (getShape ?A) = 1"
    | (two) "length (getShape ?M) = 2" "length (getShape ?A) = 2"
    | (three) "length (getShape ?M) = 3" "length (getShape ?A) = 3"
    by (cases "length (getShape ?M) = length (getShape ?A)") (simp, fastforce)
  then show ?thesis
  proof cases
    case diff
    then show ?thesis by (simp add: step_rank_diff)
  next
    case other
    then show ?thesis by (simp add: step_rank_other)
  next
    case one
    then obtain c c' where sh: "getShape ?M = [c]" "getShape ?A = [c']"
      using list_len1 by blast
    then have "concat_step os m a = Inr (os @ [join 0 ?M ?A], length os)"
      using assms by (intro step_rank1) (simp_all add: regular_def)
    with sh show ?thesis by simp
  next
    case two
    then obtain n c n' c' where sh: "getShape ?M = [n, c]" "getShape ?A = [n', c']"
      using list_len2 by blast
    then have "concat_step os m a =
        (if n = n' then Inr (os[m := join 1 ?M ?A], m) else Inl ValueError)"
      using assms by (intro step_rank2) (simp_all add: regular_def)
    with sh show ?thesis by simp
  next
    case three
    then obtain n0 n1 c n0' n1' c' where sh: "getShape ?M = [n0, n1, c]" "getShape ?A = [n0', n1', c']"
      using list_len3 by blast
    then have "concat_step os m a =
        (if n0 = n0' \<and> n1 = n1' then Inr (os[m := join 2 ?M ?A], m) else Inl ValueError)"
      using assms by (intro step_rank3) (simp_all add: regular_def)
    with sh show ?thesis by (simp add: numeral_2_eq_2)
  qed
qed

lemma join_regular:
  assumes "regular m" "regular a" "length (getShape m) = length (getShape a)"
    "getShape m \<noteq> []" "butlast (getShape m) = butlast (getShape a)"
  shows "regular (join (length (getShape m) - 1) m a)"
    and "getShape (join (length (getShape m) - 1) m a) =
           butlast (getShape m) @ [last (getShape m) + last (getShape a)]"
proof -
  let ?p = "butlast (getShape m)"
  have na: "getShape a \<noteq> []" using assms(3,4) by auto
  have sm: "getShape m = ?p @ [last (getShape m)]" using assms(4) by simp
  have sa: "getShape a = ?p @ [last (getShape a)]" using na assms(5) by simp
  have lp: "length ?p = length (getShape m) - 1" by simp
  have "has_shape m (?p @ [last (getShape m)])" using assms(1) sm by (simp add: regular_def)
  moreover have "has_shape a (?p @ [last (getShape a)])" using assms(2) sa by (simp add: regular_def)
  ultimately have hs: "has_shape (join (length ?p) m a) (?p @ [last (getShape m) + last (getShape a)])"
    by (rule has_shape_join)
  have "0 \<notin> set (butlast (?p @ [last (getShape m) + last (getShape a)]))"
    using getShape_butlast_nonzero[of m] by simp
  with hs have gs: "getShape (join (length ?p) m a) = ?p @ [last (getShape m) + last (getShape a)]"
    by (rule has_shape_getShape)
  show "getShape (join (length (getShape m) - 1) m a) =
           butlast (getShape m) @ [last (getShape m) + last (getShape a)]"
    using gs lp by simp
  show "regular (join (length (getShape m) - 1) m a)"
    using hs gs lp by (simp add: regular_def)
qed

lemma foldl_join_shape:
  assumes "regular m" "getShape m \<noteq> []"
    and "\<forall>a \<in> set as. regular a \<and> length (getShape a) = length (getShape m)
            \<and> butlast (getShape a) = butlast (getShape m)"
  shows "regular (foldl (join (length (getShape m) - 1)) m as) \<and>
         getShape (foldl (join (length (getShape m) - 1)) m as) =
           butlast (getShape m) @ [last (getShape m) + sum_list (map (\<lambda>a. last (getShape a)) as)]"
  using assms
proof (induction as arbitrary: m)
  case Nil
  then show ?case by simp
next
  case (Cons a as)
  let ?m' = "join (length (getShape m) - 1) m a"
  have a: "regular a" "length (getShape m) = length (getShape a)"
      "butlast (getShape m) = butlast (getShape a)"
    using Cons.prems(3) by simp_all
  have r': "regular ?m'"
    and g': "getShape ?m' = butlast (getShape m) @ [last (getShape m) + last (getShape a)]"
    using join_regular[OF Cons.prems(1) a(1) a(2) Cons.prems(2) a(3)] by simp_all
  have len: "length (getShape ?m') = length (getShape m)" using g' Cons.prems(2) by simp
  have bl: "butlast (getShape ?m') = butlast (getShape m)" using g' by simp
  have ls: "last (getShape ?m') = last (getShape m) + last (getShape a)" using g' by simp
  have ne: "getShape ?m' \<noteq> []" using g' by simp
  have "\<forall>b \<in> set as. regular b \<and> length (getShape b) = length (getShape ?m')
            \<and> butlast (getShape b) = butlast (getShape ?m')"
    using Cons.prems(3) len bl by simp
  from Cons.IH[OF r' ne this] show ?case
    unfolding len bl ls by (simp add: add.assoc)
qed

text \<open>
  A step that succeeds: the array at the new \<open>m\<close> is the join; it is regular, with the
  rank and the leading sizes of the old one. Every other array in the store is as it was.
  Only when the rank is 2 or 3 does the old address \<open>m\<close> hold the join as well.
\<close>

lemma concat_step_ok:
  assumes "regular (deref os m)" "regular (deref os a)"
    and "length (getShape (deref os m)) = length (getShape (deref os a))"
    and "length (getShape (deref os m)) \<in> {1, 2, 3}"
    and "butlast (getShape (deref os m)) = butlast (getShape (deref os a))"
  shows "\<exists>os1 m1. concat_step os m a = Inr (os1, m1)
      \<and> deref os1 m1 = join (length (getShape (deref os m)) - 1) (deref os m) (deref os a)
      \<and> (length (getShape (deref os m)) \<noteq> 1 \<longrightarrow> m1 = m)
      \<and> (\<forall>b. b < length os \<and> (b \<noteq> m \<or> length (getShape (deref os m)) = 1)
             \<longrightarrow> deref os1 b = deref os b)"
proof -
  let ?M = "deref os m" and ?A = "deref os a"
  let ?J = "join (length (getShape ?M) - 1) ?M ?A"
  have m: "m < length os" using assms(1) by (rule regular_valid)
  have c: "length (getShape ?M) = length (getShape ?A) \<and> length (getShape ?M) \<in> {1, 2, 3}
        \<and> butlast (getShape ?M) = butlast (getShape ?A)"
    using assms(3,4,5) by simp
  note st = concat_step_regular[OF assms(1,2)]
  show ?thesis
  proof (cases "length (getShape ?M) = 1")
    case True
    have "concat_step os m a = Inr (os @ [join 0 ?M ?A], length os)"
      by (simp only: st if_P[OF c] if_P[OF True])
    moreover have "deref (os @ [join 0 ?M ?A]) (length os) = ?J"
      using True by (simp add: deref_new)
    moreover have "\<forall>b. b < length os \<and> (b \<noteq> m \<or> length (getShape ?M) = 1)
             \<longrightarrow> deref (os @ [join 0 ?M ?A]) b = deref os b"
      by (simp add: deref_append)
    ultimately show ?thesis using True by simp
  next
    case False
    have "concat_step os m a = Inr (os[m := ?J], m)"
      by (simp only: st if_P[OF c] if_not_P[OF False])
    moreover have "deref (os[m := ?J]) m = ?J" using m by (simp add: deref_update)
    moreover have "\<forall>b. b < length os \<and> (b \<noteq> m \<or> length (getShape ?M) = 1)
             \<longrightarrow> deref (os[m := ?J]) b = deref os b"
      using m False by (simp add: deref_update)
    ultimately show ?thesis by simp
  qed
qed

text \<open>
  The loop over the inputs raises a \<open>ValueError\<close> as soon as one input does not fit,
  whichever inputs are the same object: the rank and the leading sizes of an array do not
  change when it grows along its last axis.
\<close>

lemma concat_all_error:
  "regular (deref os m) \<Longrightarrow> \<forall>a \<in> set as. regular (deref os a) \<Longrightarrow>
   \<not> (length (getShape (deref os m)) \<in> {1, 2, 3}
       \<and> (\<forall>a \<in> set as. length (getShape (deref os a)) = length (getShape (deref os m))
              \<and> butlast (getShape (deref os a)) = butlast (getShape (deref os m)))) \<Longrightarrow>
   as \<noteq> [] \<Longrightarrow> concat_all os m as = Inl ValueError"
proof (induction as arbitrary: os m)
  case Nil
  then show ?case by simp
next
  case (Cons a as)
  let ?M = "deref os m" and ?A = "deref os a"
  have ra: "regular ?A" using Cons.prems(2) by simp
  show ?case
  proof (cases "length (getShape ?M) = length (getShape ?A) \<and> length (getShape ?M) \<in> {1, 2, 3}
        \<and> butlast (getShape ?M) = butlast (getShape ?A)")
    case False
    have "concat_step os m a = Inl ValueError"
      by (simp only: concat_step_regular[OF Cons.prems(1) ra] if_not_P[OF False])
    then show ?thesis by simp
  next
    case True
    let ?J = "join (length (getShape ?M) - 1) ?M ?A"
    have c1: "length (getShape ?M) = length (getShape ?A)" using True by blast
    have c2: "length (getShape ?M) \<in> {1, 2, 3}" using True by blast
    have c3: "butlast (getShape ?M) = butlast (getShape ?A)" using True by blast
    obtain os1 m1 where st: "concat_step os m a = Inr (os1, m1)"
      and dj: "deref os1 m1 = ?J"
      and mm: "length (getShape ?M) \<noteq> 1 \<longrightarrow> m1 = m"
      and keep: "\<forall>b. b < length os \<and> (b \<noteq> m \<or> length (getShape ?M) = 1)
             \<longrightarrow> deref os1 b = deref os b"
      using concat_step_ok[OF Cons.prems(1) ra c1 c2 c3] by blast
    have ne: "getShape ?M \<noteq> []" using c2 by auto
    have rj: "regular ?J"
      and gj: "getShape ?J = butlast (getShape ?M) @ [last (getShape ?M) + last (getShape ?A)]"
      using join_regular[OF Cons.prems(1) ra c1 ne c3] by simp_all
    have lj: "length (getShape ?J) = length (getShape ?M)" using gj ne by simp
    have bj: "butlast (getShape ?J) = butlast (getShape ?M)" using gj by simp
    have each: "regular (deref os1 b)
        \<and> length (getShape (deref os1 b)) = length (getShape (deref os b))
        \<and> butlast (getShape (deref os1 b)) = butlast (getShape (deref os b))"
      if b: "b \<in> set as" for b
    proof (cases "b \<noteq> m \<or> length (getShape ?M) = 1")
      case True
      have rb: "regular (deref os b)" using Cons.prems(2) b by simp
      then have "b < length os" by (rule regular_valid)
      with True keep have "deref os1 b = deref os b" by blast
      with rb show ?thesis by simp
    next
      case False
      then have "b = m" and "m1 = m" using mm by simp_all
      then have "deref os1 b = ?J" using dj by simp
      with rj lj bj \<open>b = m\<close> show ?thesis by simp
    qed
    have r1: "regular (deref os1 m1)" using rj dj by simp
    have rs: "\<forall>b \<in> set as. regular (deref os1 b)" using each by blast
    have bad: "\<not> (\<forall>b \<in> set as. length (getShape (deref os b)) = length (getShape ?M)
              \<and> butlast (getShape (deref os b)) = butlast (getShape ?M))"
      using Cons.prems(3) True by auto
    then have ne2: "as \<noteq> []" by auto
    have "\<not> (length (getShape (deref os1 m1)) \<in> {1, 2, 3}
       \<and> (\<forall>b \<in> set as. length (getShape (deref os1 b)) = length (getShape (deref os1 m1))
              \<and> butlast (getShape (deref os1 b)) = butlast (getShape (deref os1 m1))))"
      using bad each unfolding dj lj bj by auto
    from Cons.IH[OF r1 rs this ne2] show ?thesis using st by simp
  qed
qed

text \<open>
  The loop over the inputs returns the join of all of them, taken as they are at the
  start, when they fit and either the rank is 1 or the array at \<open>m\<close> is not among them.
\<close>

lemma concat_all_join:
  "regular (deref os m) \<Longrightarrow>
   \<forall>a \<in> set as. regular (deref os a)
      \<and> length (getShape (deref os a)) = length (getShape (deref os m))
      \<and> butlast (getShape (deref os a)) = butlast (getShape (deref os m)) \<Longrightarrow>
   length (getShape (deref os m)) \<in> {1, 2, 3} \<Longrightarrow>
   length (getShape (deref os m)) = 1 \<or> m \<notin> set as \<Longrightarrow>
   \<exists>os2 m2. concat_all os m as = Inr (os2, m2)
      \<and> deref os2 m2 = foldl (join (length (getShape (deref os m)) - 1)) (deref os m)
                          (map (deref os) as)"
proof (induction as arbitrary: os m)
  case Nil
  then show ?case by simp
next
  case (Cons a as)
  let ?M = "deref os m" and ?A = "deref os a"
  let ?J = "join (length (getShape ?M) - 1) ?M ?A"
  have ra: "regular ?A" and c1: "length (getShape ?M) = length (getShape ?A)"
    and c3: "butlast (getShape ?M) = butlast (getShape ?A)"
    using Cons.prems(2) by simp_all
  note c2 = Cons.prems(3)
  obtain os1 m1 where st: "concat_step os m a = Inr (os1, m1)"
    and dj: "deref os1 m1 = ?J"
    and mm: "length (getShape ?M) \<noteq> 1 \<longrightarrow> m1 = m"
    and keep: "\<forall>b. b < length os \<and> (b \<noteq> m \<or> length (getShape ?M) = 1)
           \<longrightarrow> deref os1 b = deref os b"
    using concat_step_ok[OF Cons.prems(1) ra c1 c2 c3] by blast
  have ne: "getShape ?M \<noteq> []" using c2 by auto
  have rj: "regular ?J"
    and gj: "getShape ?J = butlast (getShape ?M) @ [last (getShape ?M) + last (getShape ?A)]"
    using join_regular[OF Cons.prems(1) ra c1 ne c3] by simp_all
  have lj: "length (getShape ?J) = length (getShape ?M)" using gj ne by simp
  have bj: "butlast (getShape ?J) = butlast (getShape ?M)" using gj by simp
  have same: "deref os1 b = deref os b" if b: "b \<in> set as" for b
  proof -
    have "regular (deref os b)" using Cons.prems(2) b by simp
    then have "b < length os" by (rule regular_valid)
    moreover have "b \<noteq> m \<or> length (getShape ?M) = 1" using Cons.prems(4) b by auto
    ultimately show ?thesis using keep by blast
  qed
  have r1: "regular (deref os1 m1)" using rj dj by simp
  have rs: "\<forall>b \<in> set as. regular (deref os1 b)
      \<and> length (getShape (deref os1 b)) = length (getShape (deref os1 m1))
      \<and> butlast (getShape (deref os1 b)) = butlast (getShape (deref os1 m1))"
    using Cons.prems(2) same unfolding dj lj bj by simp
  have k1: "length (getShape (deref os1 m1)) \<in> {1, 2, 3}" using c2 unfolding dj lj .
  have k2: "length (getShape (deref os1 m1)) = 1 \<or> m1 \<notin> set as"
    using Cons.prems(4) mm unfolding dj lj by auto
  obtain os2 m2 where res: "concat_all os1 m1 as = Inr (os2, m2)"
    and val: "deref os2 m2 = foldl (join (length (getShape (deref os1 m1)) - 1)) (deref os1 m1)
                          (map (deref os1) as)"
    using Cons.IH[OF r1 rs k1 k2] by blast
  have mp: "map (deref os1) as = map (deref os) as" using same by simp
  have "concat_all os m (a # as) = Inr (os2, m2)" using st res by simp
  moreover have "deref os2 m2 = foldl (join (length (getShape ?M) - 1)) ?M (map (deref os) (a # as))"
    using val unfolding dj lj mp by simp
  ultimately show ?case by blast
qed

text \<open>
  The first loop: the address list it yields stands for the inputs' values, the store
  is extended at the end only, and an address in the list is that of a nested array of
  the caller or a new one.
\<close>

lemma convert_input_props:
  assumes "regular (input_value os a)" "convert_input os a = (os1, p)"
  shows "\<exists>ext. os1 = os @ ext" and "deref os1 p = input_value os a"
    and "(a = Nested p \<and> os1 = os) \<or> (p = length os \<and> length os1 = length os + 1)"
  using assms by (cases a; auto simp add: new_obj_def deref_def)+

lemma input_value_append:
  "regular (input_value os a) \<Longrightarrow> input_value (os @ ext) a = input_value os a"
  by (cases a) (simp_all add: deref_append regular_valid)

lemma convert_inputs_props:
  "\<forall>a \<in> set arrays. regular (input_value os a) \<Longrightarrow> convert_inputs os arrays = (os1, ps) \<Longrightarrow>
   (\<exists>ext. os1 = os @ ext) \<and> map (deref os1) ps = map (input_value os) arrays
     \<and> (\<forall>p \<in> set ps. Nested p \<in> set arrays \<or> length os \<le> p)"
proof (induction arrays arbitrary: os os1 ps)
  case Nil
  then show ?case by simp
next
  case (Cons a as)
  obtain os' p where ci: "convert_input os a = (os', p)" by (cases "convert_input os a")
  obtain os'' ps' where cr: "convert_inputs os' as = (os'', ps')"
    by (cases "convert_inputs os' as")
  have eq: "os1 = os''" "ps = p # ps'" using Cons.prems(2) ci cr by simp_all
  have ra: "regular (input_value os a)" using Cons.prems(1) by simp
  note pr = convert_input_props[OF ra ci]
  obtain e where e: "os' = os @ e" using pr(1) by blast
  have iv: "input_value os' b = input_value os b" if "b \<in> set as" for b
    unfolding e using Cons.prems(1) that by (intro input_value_append) simp
  then have rs: "\<forall>b \<in> set as. regular (input_value os' b)" using Cons.prems(1) by simp
  from Cons.IH[OF rs cr] obtain e' where e': "os'' = os' @ e'"
    and mp: "map (deref os'') ps' = map (input_value os') as"
    and ad: "\<forall>q \<in> set ps'. Nested q \<in> set as \<or> length os' \<le> q" by blast
  have "regular (deref os' p)" using pr(2) ra by simp
  then have "p < length os'" by (rule regular_valid)
  then have dp: "deref os'' p = input_value os a" unfolding e' using pr(2) by (simp add: deref_append)
  have mp2: "map (deref os'') ps' = map (input_value os) as" using mp iv by simp
  have "\<exists>ext. os1 = os @ ext" unfolding eq e' e by simp
  moreover have "map (deref os1) ps = map (input_value os) (a # as)"
    unfolding eq using dp mp2 by simp
  moreover have "\<forall>q \<in> set ps. Nested q \<in> set (a # as) \<or> length os \<le> q"
    unfolding eq using ad pr(3) e by auto
  ultimately show ?case by blast
qed

lemma first_not_reused:
  assumes "\<forall>a \<in> set (a0 # rest). regular (input_value os a)"
    and "convert_inputs os (a0 # rest) = (os1, m # ps)"
    and "\<not> first_reused (a0 # rest)"
  shows "m \<notin> set ps"
proof
  assume mem: "m \<in> set ps"
  obtain os' where ci: "convert_input os a0 = (os', m)"
    and cr: "convert_inputs os' rest = (os1, ps)"
    using assms(2) by (auto split: prod.splits)
  have ra: "regular (input_value os a0)" using assms(1) by simp
  note pr = convert_input_props[OF ra ci]
  obtain e where e: "os' = os @ e" using pr(1) by blast
  have rs: "\<forall>b \<in> set rest. regular (input_value os' b)"
    unfolding e using assms(1) by (simp add: input_value_append)
  from convert_inputs_props[OF rs cr] mem
  have alt: "Nested m \<in> set rest \<or> length os' \<le> m" by blast
  have valid: "m < length os" if "Nested m \<in> set (a0 # rest)"
  proof -
    have "regular (input_value os (Nested m))" using assms(1) that by blast
    then show ?thesis by (simp add: regular_valid)
  qed
  from pr(3) show False
  proof
    assume a: "a0 = Nested m \<and> os' = os"
    then have "Nested m \<notin> set rest" using assms(3) by simp
    with alt a have "length os \<le> m" by simp
    moreover have "m < length os" using a valid by simp
    ultimately show False by simp
  next
    assume a: "m = length os \<and> length os' = length os + 1"
    from alt show False
    proof
      assume "Nested m \<in> set rest"
      then have "m < length os" using valid by simp
      with a show False by simp
    next
      assume "length os' \<le> m"
      with a show False by simp
    qed
  qed
qed

text \<open>\<^verbatim>\<open>concatenate\<close> on regular inputs, in the three cases.\<close>

lemma concatenate_single:
  assumes "regular (input_value os a0)"
  shows "\<exists>os2. concatenate os [a0] = Inr (os2, input_value os a0)"
proof -
  obtain os1 m where ci: "convert_input os a0 = (os1, m)" by (cases "convert_input os a0")
  have "deref os1 m = input_value os a0" using convert_input_props(2)[OF assms ci] .
  then show ?thesis using ci by (simp add: concatenate_def)
qed

lemma concatenate_error:
  assumes "\<forall>a \<in> set (a0 # rest). regular (input_value os a)"
    and "rest \<noteq> []"
    and "\<not> (length (in_shape os a0) \<in> {1, 2, 3}
        \<and> (\<forall>a \<in> set rest. length (in_shape os a) = length (in_shape os a0)
                \<and> butlast (in_shape os a) = butlast (in_shape os a0)))"
  shows "concatenate os (a0 # rest) = Inl ValueError"
proof -
  obtain os1 ps0 where cv: "convert_inputs os (a0 # rest) = (os1, ps0)"
    by (cases "convert_inputs os (a0 # rest)")
  from convert_inputs_props[OF assms(1) cv]
  have mp: "map (deref os1) ps0 = map (input_value os) (a0 # rest)" by blast
  then obtain m ps where ps0: "ps0 = m # ps" by (cases ps0) auto
  have d0: "deref os1 m = input_value os a0"
    and dr: "map (deref os1) ps = map (input_value os) rest"
    using mp ps0 by simp_all
  have len: "length ps = length rest" using dr by (metis length_map)
  have nth: "deref os1 (ps ! i) = input_value os (rest ! i)" if "i < length rest" for i
    using dr that len by (metis nth_map)
  have r0: "regular (deref os1 m)" using d0 assms(1) by simp
  have rs: "\<forall>b \<in> set ps. regular (deref os1 b)"
  proof
    fix b assume "b \<in> set ps"
    then obtain i where i: "i < length ps" "ps ! i = b" by (auto simp add: in_set_conv_nth)
    then have "deref os1 b = input_value os (rest ! i)" using nth len by auto
    moreover have "rest ! i \<in> set rest" using i len by simp
    ultimately show "regular (deref os1 b)" using assms(1) by simp
  qed
  have ne: "ps \<noteq> []" using assms(2) len by auto
  have bad: "\<not> (length (getShape (deref os1 m)) \<in> {1, 2, 3}
       \<and> (\<forall>b \<in> set ps. length (getShape (deref os1 b)) = length (getShape (deref os1 m))
              \<and> butlast (getShape (deref os1 b)) = butlast (getShape (deref os1 m))))"
  proof
    assume h: "length (getShape (deref os1 m)) \<in> {1, 2, 3}
       \<and> (\<forall>b \<in> set ps. length (getShape (deref os1 b)) = length (getShape (deref os1 m))
              \<and> butlast (getShape (deref os1 b)) = butlast (getShape (deref os1 m)))"
    have "length (in_shape os a) = length (in_shape os a0)
                \<and> butlast (in_shape os a) = butlast (in_shape os a0)" if "a \<in> set rest" for a
    proof -
      from that obtain i where i: "i < length rest" "rest ! i = a"
        by (auto simp add: in_set_conv_nth)
      have "ps ! i \<in> set ps" using i len by simp
      with h have "length (getShape (deref os1 (ps ! i))) = length (getShape (deref os1 m))
              \<and> butlast (getShape (deref os1 (ps ! i))) = butlast (getShape (deref os1 m))"
        by blast
      then show ?thesis using nth[OF i(1)] i(2) d0 by (simp add: in_shape_def)
    qed
    moreover have "length (in_shape os a0) \<in> {1, 2, 3}" using h d0 by (simp add: in_shape_def)
    ultimately show False using assms(3) by blast
  qed
  have "concat_all os1 m ps = Inl ValueError"
    using r0 rs bad ne by (rule concat_all_error)
  then show ?thesis using cv ps0 by (simp add: concatenate_def)
qed

lemma concatenate_join:
  assumes "\<forall>a \<in> set (a0 # rest). regular (input_value os a)"
    and "length (in_shape os a0) \<in> {1, 2, 3}"
    and "\<forall>a \<in> set rest. length (in_shape os a) = length (in_shape os a0)
                \<and> butlast (in_shape os a) = butlast (in_shape os a0)"
    and "length (in_shape os a0) = 1 \<or> \<not> first_reused (a0 # rest)"
  shows "\<exists>os2. concatenate os (a0 # rest) =
           Inr (os2, foldl (join (length (in_shape os a0) - 1)) (input_value os a0)
                       (map (input_value os) rest))"
proof -
  obtain os1 ps0 where cv: "convert_inputs os (a0 # rest) = (os1, ps0)"
    by (cases "convert_inputs os (a0 # rest)")
  from convert_inputs_props[OF assms(1) cv]
  have mp: "map (deref os1) ps0 = map (input_value os) (a0 # rest)" by blast
  then obtain m ps where ps0: "ps0 = m # ps" by (cases ps0) auto
  have d0: "deref os1 m = input_value os a0"
    and dr: "map (deref os1) ps = map (input_value os) rest"
    using mp ps0 by simp_all
  have len: "length ps = length rest" using dr by (metis length_map)
  have nth: "deref os1 (ps ! i) = input_value os (rest ! i)" if "i < length rest" for i
    using dr that len by (metis nth_map)
  have r0: "regular (deref os1 m)" using d0 assms(1) by simp
  have rs: "\<forall>b \<in> set ps. regular (deref os1 b)
      \<and> length (getShape (deref os1 b)) = length (getShape (deref os1 m))
      \<and> butlast (getShape (deref os1 b)) = butlast (getShape (deref os1 m))"
  proof
    fix b assume "b \<in> set ps"
    then obtain i where i: "i < length ps" "ps ! i = b" by (auto simp add: in_set_conv_nth)
    then have db: "deref os1 b = input_value os (rest ! i)" using nth len by auto
    have mem: "rest ! i \<in> set rest" using i len by simp
    then have "regular (input_value os (rest ! i))" using assms(1) by simp
    moreover have "length (in_shape os (rest ! i)) = length (in_shape os a0)
                \<and> butlast (in_shape os (rest ! i)) = butlast (in_shape os a0)"
      using assms(3) mem by blast
    ultimately show "regular (deref os1 b)
      \<and> length (getShape (deref os1 b)) = length (getShape (deref os1 m))
      \<and> butlast (getShape (deref os1 b)) = butlast (getShape (deref os1 m))"
      unfolding db d0 by (simp add: in_shape_def)
  qed
  have k1: "length (getShape (deref os1 m)) \<in> {1, 2, 3}"
    using assms(2) d0 by (simp add: in_shape_def)
  have k2: "length (getShape (deref os1 m)) = 1 \<or> m \<notin> set ps"
  proof (cases "length (in_shape os a0) = 1")
    case True
    then show ?thesis using d0 by (simp add: in_shape_def)
  next
    case False
    then have "\<not> first_reused (a0 # rest)" using assms(4) by simp
    with assms(1) cv ps0 have "m \<notin> set ps" by (intro first_not_reused) simp_all
    then show ?thesis by simp
  qed
  obtain os2 m2 where res: "concat_all os1 m ps = Inr (os2, m2)"
    and val: "deref os2 m2 = foldl (join (length (getShape (deref os1 m)) - 1)) (deref os1 m)
                          (map (deref os1) ps)"
    using concat_all_join[OF r0 rs k1 k2] by blast
  have "concatenate os (a0 # rest) = Inr (os2, deref os2 m2)"
    using cv ps0 res by (simp add: concatenate_def)
  then show ?thesis unfolding val d0 dr by (auto simp add: in_shape_def)
qed

text \<open>
  When the array given first is given again, the later round reads it as the earlier
  rounds left it: three times the same array of shape \<open>[2, 2]\<close> give shape \<open>[2, 8]\<close>,
  and the caller's array has become the result.
\<close>

lemma concatenate_first_reused:
  "concatenate [Arr [Arr [Num 1, Num 2], Arr [Num 3, Num 4]]] [Nested 0, Nested 0, Nested 0] =
     Inr ([Arr [Arr [Num 1, Num 2, Num 1, Num 2, Num 1, Num 2, Num 1, Num 2],
                Arr [Num 3, Num 4, Num 3, Num 4, Num 3, Num 4, Num 3, Num 4]]],
          Arr [Arr [Num 1, Num 2, Num 1, Num 2, Num 1, Num 2, Num 1, Num 2],
               Arr [Num 3, Num 4, Num 3, Num 4, Num 3, Num 4, Num 3, Num 4]])"
proof -
  let ?x = "Arr [Arr [Num 1, Num 2], Arr [Num 3, Num 4]]"
  let ?y = "Arr [Arr [Num 1, Num 2, Num 1, Num 2], Arr [Num 3, Num 4, Num 3, Num 4]]"
  let ?z = "Arr [Arr [Num 1, Num 2, Num 1, Num 2, Num 1, Num 2, Num 1, Num 2],
                 Arr [Num 3, Num 4, Num 3, Num 4, Num 3, Num 4, Num 3, Num 4]]"
  have s1: "concat_step [?x] 0 0 = Inr ([?y], 0)"
    by (subst concat_step_regular) (simp_all add: regular_def deref_def)
  have s2: "concat_step [?y] 0 0 = Inr ([?z], 0)"
    by (subst concat_step_regular) (simp_all add: regular_def deref_def)
  show ?thesis by (simp add: concatenate_def s1 s2 deref_def)
qed

text \<open>
  Inputs that fit are joined without an error also when the array given first is given
  again; the result then has the rank and the leading sizes of the inputs.
\<close>

lemma concat_all_fits:
  "regular (deref os m) \<Longrightarrow>
   \<forall>a \<in> set as. regular (deref os a)
      \<and> length (getShape (deref os a)) = length (getShape (deref os m))
      \<and> butlast (getShape (deref os a)) = butlast (getShape (deref os m)) \<Longrightarrow>
   length (getShape (deref os m)) \<in> {1, 2, 3} \<Longrightarrow>
   \<exists>os2 m2. concat_all os m as = Inr (os2, m2) \<and> regular (deref os2 m2)
      \<and> length (getShape (deref os2 m2)) = length (getShape (deref os m))
      \<and> butlast (getShape (deref os2 m2)) = butlast (getShape (deref os m))"
proof (induction as arbitrary: os m)
  case Nil
  then show ?case by simp
next
  case (Cons a as)
  let ?M = "deref os m" and ?A = "deref os a"
  let ?J = "join (length (getShape ?M) - 1) ?M ?A"
  have ra: "regular ?A" and c1: "length (getShape ?M) = length (getShape ?A)"
    and c3: "butlast (getShape ?M) = butlast (getShape ?A)"
    using Cons.prems(2) by simp_all
  note c2 = Cons.prems(3)
  obtain os1 m1 where st: "concat_step os m a = Inr (os1, m1)"
    and dj: "deref os1 m1 = ?J"
    and mm: "length (getShape ?M) \<noteq> 1 \<longrightarrow> m1 = m"
    and keep: "\<forall>b. b < length os \<and> (b \<noteq> m \<or> length (getShape ?M) = 1)
           \<longrightarrow> deref os1 b = deref os b"
    using concat_step_ok[OF Cons.prems(1) ra c1 c2 c3] by blast
  have ne: "getShape ?M \<noteq> []" using c2 by auto
  have rj: "regular ?J"
    and gj: "getShape ?J = butlast (getShape ?M) @ [last (getShape ?M) + last (getShape ?A)]"
    using join_regular[OF Cons.prems(1) ra c1 ne c3] by simp_all
  have lj: "length (getShape ?J) = length (getShape ?M)" using gj ne by simp
  have bj: "butlast (getShape ?J) = butlast (getShape ?M)" using gj by simp
  have each: "regular (deref os1 b)
      \<and> length (getShape (deref os1 b)) = length (getShape (deref os1 m1))
      \<and> butlast (getShape (deref os1 b)) = butlast (getShape (deref os1 m1))"
    if b: "b \<in> set as" for b
  proof (cases "b \<noteq> m \<or> length (getShape ?M) = 1")
    case True
    have rb: "regular (deref os b) \<and> length (getShape (deref os b)) = length (getShape ?M)
        \<and> butlast (getShape (deref os b)) = butlast (getShape ?M)"
      using Cons.prems(2) b by simp
    then have "b < length os" by (simp add: regular_valid)
    with True keep have "deref os1 b = deref os b" by blast
    with rb show ?thesis unfolding dj lj bj by simp
  next
    case False
    then have "b = m" and "m1 = m" using mm by simp_all
    then have "deref os1 b = ?J" using dj by simp
    with rj show ?thesis unfolding dj by simp
  qed
  have r1: "regular (deref os1 m1)" using rj dj by simp
  have rs: "\<forall>b \<in> set as. regular (deref os1 b)
      \<and> length (getShape (deref os1 b)) = length (getShape (deref os1 m1))
      \<and> butlast (getShape (deref os1 b)) = butlast (getShape (deref os1 m1))"
    using each by blast
  have k1: "length (getShape (deref os1 m1)) \<in> {1, 2, 3}" using c2 unfolding dj lj .
  obtain os2 m2 where res: "concat_all os1 m1 as = Inr (os2, m2)"
    and reg: "regular (deref os2 m2)"
    and l2: "length (getShape (deref os2 m2)) = length (getShape (deref os1 m1))"
    and b2: "butlast (getShape (deref os2 m2)) = butlast (getShape (deref os1 m1))"
    using Cons.IH[OF r1 rs k1] by blast
  have "concat_all os m (a # as) = Inr (os2, m2)" using st res by simp
  with reg l2 b2 show ?case unfolding dj lj bj by blast
qed

lemma concatenate_fits:
  assumes "\<forall>a \<in> set (a0 # rest). regular (input_value os a)"
    and "length (in_shape os a0) \<in> {1, 2, 3}"
    and "\<forall>a \<in> set rest. length (in_shape os a) = length (in_shape os a0)
                \<and> butlast (in_shape os a) = butlast (in_shape os a0)"
  shows "\<exists>os2 v. concatenate os (a0 # rest) = Inr (os2, v) \<and> regular v
           \<and> length (getShape v) = length (in_shape os a0)
           \<and> butlast (getShape v) = butlast (in_shape os a0)"
proof -
  obtain os1 ps0 where cv: "convert_inputs os (a0 # rest) = (os1, ps0)"
    by (cases "convert_inputs os (a0 # rest)")
  from convert_inputs_props[OF assms(1) cv]
  have mp: "map (deref os1) ps0 = map (input_value os) (a0 # rest)" by blast
  then obtain m ps where ps0: "ps0 = m # ps" by (cases ps0) auto
  have d0: "deref os1 m = input_value os a0"
    and dr: "map (deref os1) ps = map (input_value os) rest"
    using mp ps0 by simp_all
  have len: "length ps = length rest" using dr by (metis length_map)
  have nth: "deref os1 (ps ! i) = input_value os (rest ! i)" if "i < length rest" for i
    using dr that len by (metis nth_map)
  have r0: "regular (deref os1 m)" using d0 assms(1) by simp
  have rs: "\<forall>b \<in> set ps. regular (deref os1 b)
      \<and> length (getShape (deref os1 b)) = length (getShape (deref os1 m))
      \<and> butlast (getShape (deref os1 b)) = butlast (getShape (deref os1 m))"
  proof
    fix b assume "b \<in> set ps"
    then obtain i where i: "i < length ps" "ps ! i = b" by (auto simp add: in_set_conv_nth)
    then have db: "deref os1 b = input_value os (rest ! i)" using nth len by auto
    have mem: "rest ! i \<in> set rest" using i len by simp
    then have "regular (input_value os (rest ! i))" using assms(1) by simp
    moreover have "length (in_shape os (rest ! i)) = length (in_shape os a0)
                \<and> butlast (in_shape os (rest ! i)) = butlast (in_shape os a0)"
      using assms(3) mem by blast
    ultimately show "regular (deref os1 b)
      \<and> length (getShape (deref os1 b)) = length (getShape (deref os1 m))
      \<and> butlast (getShape (deref os1 b)) = butlast (getShape (deref os1 m))"
      unfolding db d0 by (simp add: in_shape_def)
  qed
  have k1: "length (getShape (deref os1 m)) \<in> {1, 2, 3}"
    using assms(2) d0 by (simp add: in_shape_def)
  obtain os2 m2 where res: "concat_all os1 m ps = Inr (os2, m2)"
    and reg: "regular (deref os2 m2)"
    and l2: "length (getShape (deref os2 m2)) = length (getShape (deref os1 m))"
    and b2: "butlast (getShape (deref os2 m2)) = butlast (getShape (deref os1 m))"
    using concat_all_fits[OF r0 rs k1] by blast
  have "concatenate os (a0 # rest) = Inr (os2, deref os2 m2)"
    using cv ps0 res by (simp add: concatenate_def)
  with reg l2 b2 show ?thesis unfolding d0 by (simp add: in_shape_def)
qed

text \<open>
  Claim C6, as amended. For every store and every list of inputs that stand for regular
  nested arrays, \<open>concatenate\<close> raises a \<open>ValueError\<close> when any two inputs differ in
  rank, or when any axis but the last differs in size between two inputs, or when two or
  more inputs are given and one has rank 4 or higher. When all inputs have the same
  rank 1, 2 or 3 and agree on all axes but the last, it returns a regular array of that
  rank with these leading sizes; and the result is the inputs joined along the last axis,
  whose size is the sum of the inputs' last sizes, when the rank is 1 or the array given
  first is not a nested array of the caller that is given again among the later inputs
  (that array is changed in place, and a later round would read it as already grown).
  A single input is returned as it is, whatever its rank.
\<close>

theorem concatenate_last_axis:
  assumes "\<forall>a \<in> set arrays. regular (input_value os a)"
  shows "((\<exists>a \<in> set arrays. \<exists>b \<in> set arrays. length (in_shape os a) \<noteq> length (in_shape os b))
            \<longrightarrow> concatenate os arrays = Inl ValueError)
       \<and> ((\<exists>a \<in> set arrays. \<exists>b \<in> set arrays. butlast (in_shape os a) \<noteq> butlast (in_shape os b))
            \<longrightarrow> concatenate os arrays = Inl ValueError)
       \<and> (2 \<le> length arrays \<and> (\<exists>a \<in> set arrays. 4 \<le> length (in_shape os a))
            \<longrightarrow> concatenate os arrays = Inl ValueError)
       \<and> (arrays \<noteq> [] \<and> length (in_shape os (hd arrays)) \<in> {1, 2, 3}
            \<and> (\<forall>a \<in> set arrays. length (in_shape os a) = length (in_shape os (hd arrays))
                    \<and> butlast (in_shape os a) = butlast (in_shape os (hd arrays)))
            \<longrightarrow> (\<exists>os2 m. concatenate os arrays = Inr (os2, m)
                 \<and> regular m
                 \<and> length (getShape m) = length (in_shape os (hd arrays))
                 \<and> butlast (getShape m) = butlast (in_shape os (hd arrays))
                 \<and> (length (in_shape os (hd arrays)) = 1 \<or> \<not> first_reused arrays \<longrightarrow>
                      m = foldl (join (length (in_shape os (hd arrays)) - 1))
                            (input_value os (hd arrays)) (map (input_value os) (tl arrays))
                      \<and> getShape m = butlast (in_shape os (hd arrays)) @
                                       [sum_list (map (\<lambda>a. last (in_shape os a)) arrays)])))
       \<and> (length arrays = 1
            \<longrightarrow> (\<exists>os2. concatenate os arrays = Inr (os2, input_value os (hd arrays))))"
proof (cases arrays)
  case Nil
  then show ?thesis by simp
next
  case (Cons a0 rest)
  note reg = assms[unfolded Cons]
  have P1: "concatenate os arrays = Inl ValueError"
    if "\<exists>a \<in> set arrays. \<exists>b \<in> set arrays. length (in_shape os a) \<noteq> length (in_shape os b)"
  proof -
    from that have ne: "rest \<noteq> []" using Cons by auto
    have "\<not> (\<forall>a \<in> set rest. length (in_shape os a) = length (in_shape os a0))"
    proof
      assume "\<forall>a \<in> set rest. length (in_shape os a) = length (in_shape os a0)"
      then have "\<forall>a \<in> set arrays. length (in_shape os a) = length (in_shape os a0)"
        using Cons by simp
      with that show False by simp
    qed
    then have "\<not> (length (in_shape os a0) \<in> {1, 2, 3}
        \<and> (\<forall>a \<in> set rest. length (in_shape os a) = length (in_shape os a0)
                \<and> butlast (in_shape os a) = butlast (in_shape os a0)))" by blast
    with reg ne show ?thesis unfolding Cons by (rule concatenate_error)
  qed
  have P2: "concatenate os arrays = Inl ValueError"
    if "\<exists>a \<in> set arrays. \<exists>b \<in> set arrays. butlast (in_shape os a) \<noteq> butlast (in_shape os b)"
  proof -
    from that have ne: "rest \<noteq> []" using Cons by auto
    have "\<not> (\<forall>a \<in> set rest. butlast (in_shape os a) = butlast (in_shape os a0))"
    proof
      assume "\<forall>a \<in> set rest. butlast (in_shape os a) = butlast (in_shape os a0)"
      then have "\<forall>a \<in> set arrays. butlast (in_shape os a) = butlast (in_shape os a0)"
        using Cons by simp
      with that show False by simp
    qed
    then have "\<not> (length (in_shape os a0) \<in> {1, 2, 3}
        \<and> (\<forall>a \<in> set rest. length (in_shape os a) = length (in_shape os a0)
                \<and> butlast (in_shape os a) = butlast (in_shape os a0)))" by blast
    with reg ne show ?thesis unfolding Cons by (rule concatenate_error)
  qed
  have P3: "concatenate os arrays = Inl ValueError"
    if "2 \<le> length arrays \<and> (\<exists>a \<in> set arrays. 4 \<le> length (in_shape os a))"
  proof -
    from that have ne: "rest \<noteq> []" using Cons by auto
    have "\<not> (length (in_shape os a0) \<in> {1, 2, 3}
        \<and> (\<forall>a \<in> set rest. length (in_shape os a) = length (in_shape os a0)))"
    proof
      assume a: "length (in_shape os a0) \<in> {1, 2, 3}
        \<and> (\<forall>a \<in> set rest. length (in_shape os a) = length (in_shape os a0))"
      then have "\<forall>a \<in> set arrays. length (in_shape os a) = length (in_shape os a0)"
        using Cons by simp
      with that a show False by auto
    qed
    then have "\<not> (length (in_shape os a0) \<in> {1, 2, 3}
        \<and> (\<forall>a \<in> set rest. length (in_shape os a) = length (in_shape os a0)
                \<and> butlast (in_shape os a) = butlast (in_shape os a0)))" by blast
    with reg ne show ?thesis unfolding Cons by (rule concatenate_error)
  qed
  have P4: "\<exists>os2 m. concatenate os arrays = Inr (os2, m)
                 \<and> regular m
                 \<and> length (getShape m) = length (in_shape os (hd arrays))
                 \<and> butlast (getShape m) = butlast (in_shape os (hd arrays))
                 \<and> (length (in_shape os (hd arrays)) = 1 \<or> \<not> first_reused arrays \<longrightarrow>
                      m = foldl (join (length (in_shape os (hd arrays)) - 1))
                            (input_value os (hd arrays)) (map (input_value os) (tl arrays))
                      \<and> getShape m = butlast (in_shape os (hd arrays)) @
                                       [sum_list (map (\<lambda>a. last (in_shape os a)) arrays)])"
    if h: "arrays \<noteq> [] \<and> length (in_shape os (hd arrays)) \<in> {1, 2, 3}
            \<and> (\<forall>a \<in> set arrays. length (in_shape os a) = length (in_shape os (hd arrays))
                    \<and> butlast (in_shape os a) = butlast (in_shape os (hd arrays)))"
  proof -
    let ?first = "input_value os a0"
    let ?as = "map (input_value os) rest"
    let ?m = "foldl (join (length (in_shape os a0) - 1)) ?first ?as"
    have rk: "length (in_shape os a0) \<in> {1, 2, 3}" using h Cons by simp
    have fit: "\<forall>a \<in> set rest. length (in_shape os a) = length (in_shape os a0)
                \<and> butlast (in_shape os a) = butlast (in_shape os a0)"
      using h Cons by simp
    obtain os2 v where c: "concatenate os (a0 # rest) = Inr (os2, v)" and rv: "regular v"
      and lv: "length (getShape v) = length (in_shape os a0)"
      and bv: "butlast (getShape v) = butlast (in_shape os a0)"
      using concatenate_fits[OF reg rk fit] by blast
    have r0: "regular ?first" using reg by simp
    have ne: "getShape ?first \<noteq> []" using rk by (auto simp add: in_shape_def)
    have all: "\<forall>a \<in> set ?as. regular a \<and> length (getShape a) = length (getShape ?first)
            \<and> butlast (getShape a) = butlast (getShape ?first)"
      using fit reg by (auto simp add: in_shape_def)
    have sm: "map (\<lambda>a. last (getShape a)) ?as = map (\<lambda>a. last (in_shape os a)) rest"
      by (simp add: in_shape_def comp_def)
    note fj = foldl_join_shape[OF r0 ne all, unfolded sm]
    from fj have gm: "getShape ?m = butlast (in_shape os a0) @
        [sum_list (map (\<lambda>a. last (in_shape os a)) (a0 # rest))]"
      by (simp add: in_shape_def)
    have "v = ?m" if nr: "length (in_shape os a0) = 1 \<or> \<not> first_reused (a0 # rest)"
    proof -
      obtain os3 where "concatenate os (a0 # rest) = Inr (os3, ?m)"
        using concatenate_join[OF reg rk fit nr] by blast
      with c show ?thesis by simp
    qed
    with gm have last: "length (in_shape os a0) = 1 \<or> \<not> first_reused (a0 # rest) \<longrightarrow>
        v = ?m \<and> getShape v = butlast (in_shape os a0) @
              [sum_list (map (\<lambda>a. last (in_shape os a)) (a0 # rest))]"
      by simp
    show ?thesis unfolding Cons list.sel
      by (intro exI[of _ os2] exI[of _ v] conjI c rv lv bv last)
  qed
  have P5: "\<exists>os2. concatenate os arrays = Inr (os2, input_value os (hd arrays))"
    if "length arrays = 1"
  proof -
    from that have "rest = []" using Cons by simp
    moreover have "regular (input_value os a0)" using reg by simp
    ultimately show ?thesis unfolding Cons using concatenate_single by simp
  qed
  from P1 P2 P3 P4 P5 show ?thesis by blast
qed

theorem concatenate_last_axis_witness:
  "regular (input_value [Arr [Arr [Num 1, Num 2], Arr [Num 3, Num 4]], Arr [Arr [Num 5], Arr [Num 6]]]
              (Nested 0))
   \<and> regular (input_value [Arr [Arr [Num 1, Num 2], Arr [Num 3, Num 4]], Arr [Arr [Num 5], Arr [Num 6]]]
              (Nested 1))
   \<and> (\<exists>os2 m. concatenate [Arr [Arr [Num 1, Num 2], Arr [Num 3, Num 4]], Arr [Arr [Num 5], Arr [Num 6]]]
                 [Nested 0, Nested 1] = Inr (os2, m)
          \<and> m = Arr [Arr [Num 1, Num 2, Num 5], Arr [Num 3, Num 4, Num 6]]
          \<and> getShape m = [2, 3])
   \<and> regular (input_value [] (Number 1)) \<and> regular (input_value [] (FromNdArray (Arr [Arr [Num 2]])))
   \<and> concatenate [] [Number 1, FromNdArray (Arr [Arr [Num 2]])] = Inl ValueError
   \<and> (\<exists>os2. concatenate [] [Number 1] = Inr (os2, Arr [Num 1]))"
proof -
  let ?x = "Arr [Arr [Num 1, Num 2], Arr [Num 3, Num 4]]"
  let ?y = "Arr [Arr [Num 5], Arr [Num 6]]"
  let ?os = "[?x, ?y]"
  let ?in = "[Nested 0, Nested 1]"
  have reg: "\<forall>a \<in> set ?in. regular (input_value ?os a)" by (simp add: regular_def deref_def)
  have pre: "?in \<noteq> [] \<and> length (in_shape ?os (hd ?in)) \<in> {1, 2, 3}
            \<and> (\<forall>a \<in> set ?in. length (in_shape ?os a) = length (in_shape ?os (hd ?in))
                    \<and> butlast (in_shape ?os a) = butlast (in_shape ?os (hd ?in)))"
    by (simp add: in_shape_def deref_def)
  have fresh: "length (in_shape ?os (hd ?in)) = 1 \<or> \<not> first_reused ?in" by simp
  obtain os2 m where m: "concatenate ?os ?in = Inr (os2, m)
                 \<and> regular m
                 \<and> length (getShape m) = length (in_shape ?os (hd ?in))
                 \<and> butlast (getShape m) = butlast (in_shape ?os (hd ?in))
                 \<and> (length (in_shape ?os (hd ?in)) = 1 \<or> \<not> first_reused ?in \<longrightarrow>
                      m = foldl (join (length (in_shape ?os (hd ?in)) - 1))
                            (input_value ?os (hd ?in)) (map (input_value ?os) (tl ?in))
                      \<and> getShape m = butlast (in_shape ?os (hd ?in)) @
                                       [sum_list (map (\<lambda>a. last (in_shape ?os a)) ?in)])"
    using concatenate_last_axis[OF reg, THEN conjunct2, THEN conjunct2, THEN conjunct2,
        THEN conjunct1, rule_format, OF pre] by blast
  then have m1: "concatenate ?os ?in = Inr (os2, m)" by (rule conjunct1)
  from m fresh have "m = foldl (join (length (in_shape ?os (hd ?in)) - 1))
                            (input_value ?os (hd ?in)) (map (input_value ?os) (tl ?in))
                      \<and> getShape m = butlast (in_shape ?os (hd ?in)) @
                                       [sum_list (map (\<lambda>a. last (in_shape ?os a)) ?in)]"
    by blast
  then have m2: "m = Arr [Arr [Num 1, Num 2, Num 5], Arr [Num 3, Num 4, Num 6]]"
    and m3: "getShape m = [2, 3]"
    by (simp_all add: in_shape_def deref_def numeral_2_eq_2)
  let ?c = "Number 1"
  let ?d = "FromNdArray (Arr [Arr [Num 2]])"
  have reg2: "\<forall>a \<in> set [?c, ?d]. regular (input_value [] a)" by (simp add: regular_def)
  have pre2: "\<exists>a \<in> set [?c, ?d]. \<exists>b \<in> set [?c, ?d]. length (in_shape [] a) \<noteq> length (in_shape [] b)"
    by (rule bexI[of _ ?c], rule bexI[of _ ?d]) (simp_all add: in_shape_def)
  have e: "concatenate [] [?c, ?d] = Inl ValueError"
    using concatenate_last_axis[OF reg2, THEN conjunct1, rule_format, OF pre2] .
  have reg3: "\<forall>a \<in> set [?c]. regular (input_value [] a)" by (simp add: regular_def)
  have pre3: "length [?c] = 1" by simp
  have "\<exists>os2. concatenate [] [?c] = Inr (os2, input_value [] (hd [?c]))"
    using concatenate_last_axis[OF reg3, THEN conjunct2, THEN conjunct2, THEN conjunct2,
        THEN conjunct2, rule_format, OF pre3] .
  then have s: "\<exists>os2. concatenate [] [?c] = Inr (os2, Arr [Num 1])" by simp
  have ra: "regular (input_value ?os (Nested 0))" and rb: "regular (input_value ?os (Nested 1))"
    using reg by simp_all
  have rc: "regular (input_value [] ?c)" and rd: "regular (input_value [] ?d)"
    using reg2 by simp_all
  have j: "\<exists>os2 m. concatenate ?os ?in = Inr (os2, m)
          \<and> m = Arr [Arr [Num 1, Num 2, Num 5], Arr [Num 3, Num 4, Num 6]]
          \<and> getShape m = [2, 3]"
    by (intro exI[of _ os2] exI[of _ m] conjI m1 m2 m3)
  show ?thesis by (intro conjI ra rb rc rd e j s)
qed

text \<open>
  Claim C6 as stated fails for a single input of rank 4: the loop over the inputs starts
  at the second one, so the input is returned as it is.
\<close>

theorem concatenate_rank4_counterexample:
  "in_shape [] (FromNdArray (Arr [Arr [Arr [Arr [Num 1]]]])) = [1, 1, 1, 1]
   \<and> concatenate [] [FromNdArray (Arr [Arr [Arr [Arr [Num 1]]]])] =
       Inr ([Arr [Arr [Arr [Arr [Num 1]]]]], Arr [Arr [Arr [Arr [Num 1]]]])"
  by (simp add: in_shape_def concatenate_def new_obj_def deref_def)

section \<open>Properties of the array engine\<close>

lemma length_set_elem [simp]: "length (set_elem h v idx x) = length h"
  by (simp add: set_elem_def)

lemma nth_set_elem_other: "a \<noteq> buf v \<Longrightarrow> set_elem h v idx x ! a = h ! a"
  by (simp add: set_elem_def)

lemma fold_set_elem_frame:
  "length (fold (\<lambda>e h'. set_elem h' v (g e) (w e h')) es h) = length h \<and>
   (\<forall>a. a \<noteq> buf v \<longrightarrow> fold (\<lambda>e h'. set_elem h' v (g e) (w e h')) es h ! a = h ! a)"
  by (induction es arbitrary: h) (simp_all add: nth_set_elem_other)

lemma cwise_frame:
  "length (cwise f h v) = length h" "a \<noteq> buf v \<Longrightarrow> cwise f h v ! a = h ! a"
  using fold_set_elem_frame[of v "\<lambda>idx. idx" "\<lambda>idx h'. f (get_elem h' v idx)" "indices (shape v)" h]
  by (simp_all add: cwise_def)

lemma write_view_frame:
  "length (write_view h v xs) = length h" "a \<noteq> buf v \<Longrightarrow> write_view h v xs ! a = h ! a"
proof -
  have eq: "(\<lambda>(idx, x) h'. set_elem h' v idx x) = (\<lambda>e h'. set_elem h' v (fst e) (snd e))"
    by (simp add: fun_eq_iff split_beta)
  note fr = fold_set_elem_frame[of v fst "\<lambda>e h'. snd e" "zip (indices (shape v)) xs" h]
  show "length (write_view h v xs) = length h"
    unfolding write_view_def eq using fr by simp
  show "a \<noteq> buf v \<Longrightarrow> write_view h v xs ! a = h ! a"
    unfolding write_view_def eq using fr by simp
qed

lemma elems_cong_store:
  "h' ! buf v = h ! buf v \<Longrightarrow> elems h' v = elems h v"
  by (simp add: elems_def get_elem_def)

lemma on_copy_extend:
  assumes "buf x < length h" "length h' = Suc (length h)"
    and "\<And>a. a < length h \<Longrightarrow> h' ! a = h ! a" "shape r = shape x"
  shows "on_copy h x (h', r)"
proof -
  have "take (length h) h' = h"
    using assms(2,3) by (intro nth_equalityI) simp_all
  moreover have "elems h' x = elems h x"
    using assms(1,3) by (intro elems_cong_store) simp
  ultimately show ?thesis using assms(2,4) by (simp add: on_copy_def)
qed

lemma apply_on_clone_on_copy:
  assumes "buf x < length h"
  shows "on_copy h x (apply_on_clone f h x)"
proof -
  let ?s = "\<lparr>buf = length h, shape = shape x, stride = c_strides (shape x), offset = 0\<rparr>"
  let ?h1 = "h @ [elems h x]"
  have ap: "apply_on_clone f h x = (cwise f ?h1 ?s, ?s)"
    by (simp add: apply_on_clone_def clone_def alloc_def)
  have "on_copy h x (cwise f ?h1 ?s, ?s)"
  proof (rule on_copy_extend[OF assms])
    show "length (cwise f ?h1 ?s) = Suc (length h)" by (simp add: cwise_frame)
    show "shape ?s = shape x" by simp
    fix a assume "a < length h"
    then show "cwise f ?h1 ?s ! a = h ! a" by (simp add: cwise_frame nth_append)
  qed
  with ap show ?thesis by simp
qed


lemma length_indices: "length (indices s) = prod_list s"
proof (induction s)
  case Nil
  then show ?case by simp
next
  case (Cons n s)
  have "length (concat (map (\<lambda>i. map ((#) i) (indices s)) [0..<n])) = n * prod_list s"
    by (induction n) (simp_all add: Cons.IH del: upt_Suc add: upt_Suc_append)
  then show ?case by simp
qed

lemma concat_blocks:
  "concat (map (\<lambda>i. map (\<lambda>k. g (i * P + k)) [0..<P]) [0..<n]) = map g [0..<n * P]"
proof (induction n)
  case 0
  then show ?case by simp
next
  case (Suc n)
  have blk: "map (\<lambda>k. g (n * P + k)) [0..<P] = map g [n * P..<n * P + P]"
  proof -
    have "map (\<lambda>k. g (n * P + k)) [0..<P] = map g (map (\<lambda>k. k + n * P) [0..<P])"
      by (simp add: comp_def add.commute)
    also have "map (\<lambda>k. k + n * P) [0..<P] = [n * P..<P + n * P]"
      by (rule map_add_upt)
    finally show ?thesis by (simp only: add.commute)
  qed
  have "concat (map (\<lambda>i. map (\<lambda>k. g (i * P + k)) [0..<P]) [0..<Suc n]) =
        concat (map (\<lambda>i. map (\<lambda>k. g (i * P + k)) [0..<P]) [0..<n]) @ map (\<lambda>k. g (n * P + k)) [0..<P]"
    by simp
  also have "\<dots> = map g [0..<n * P] @ map g [n * P..<n * P + P]"
    by (simp only: Suc.IH blk)
  also have "\<dots> = map g ([0..<n * P] @ [n * P..<n * P + P])"
    by (simp only: map_append)
  also have "[0..<n * P] @ [n * P..<n * P + P] = [0..<n * P + P]"
    by (rule upt_add_eq_append[symmetric]) simp
  also have "n * P + P = Suc n * P" by simp
  finally show ?case .
qed

lemma linear_Cons: "linear (st # sts) (i # idx) = int i * st + linear sts idx"
  by (simp add: linear_def)

lemma contiguous_positions:
  "map (\<lambda>idx. b + linear (c_strides s) idx) (indices s) = map (\<lambda>k. b + int k) [0..<prod_list s]"
proof (induction s arbitrary: b)
  case Nil
  then show ?case by (simp add: linear_def)
next
  case (Cons n s)
  let ?P = "prod_list s"
  have "map (\<lambda>idx. b + linear (c_strides (n # s)) idx) (indices (n # s)) =
        concat (map (\<lambda>i. map (\<lambda>idx. (b + int i * int ?P) + linear (c_strides s) idx) (indices s)) [0..<n])"
    by (simp add: map_concat comp_def linear_Cons add.assoc)
  also have "\<dots> = concat (map (\<lambda>i. map (\<lambda>k. (b + int i * int ?P) + int k) [0..<?P]) [0..<n])"
    by (simp only: Cons.IH)
  also have "\<dots> = concat (map (\<lambda>i. map (\<lambda>k. b + int (i * ?P + k)) [0..<?P]) [0..<n])"
    by (simp add: add.assoc)
  also have "\<dots> = map (\<lambda>k. b + int k) [0..<n * ?P]"
    by (rule concat_blocks)
  finally show ?case by simp
qed

lemma contiguous_nat_positions:
  "map (\<lambda>idx. nat (position \<lparr>buf = b, shape = s, stride = c_strides s, offset = 0\<rparr> idx)) (indices s)
     = [0..<prod_list s]"
proof -
  have "map (\<lambda>idx. nat (0 + linear (c_strides s) idx)) (indices s) =
        map nat (map (\<lambda>idx. 0 + linear (c_strides s) idx) (indices s))"
    by simp
  also have "\<dots> = map nat (map (\<lambda>k. 0 + int k) [0..<prod_list s])"
    by (simp only: contiguous_positions)
  also have "\<dots> = [0..<prod_list s]" by (simp add: map_idI)
  finally show ?thesis by (simp add: position_def)
qed

lemma elems_contiguous:
  assumes "length d = prod_list s" "h ! b = d"
  shows "elems h \<lparr>buf = b, shape = s, stride = c_strides s, offset = 0\<rparr> = d"
proof -
  let ?v = "\<lparr>buf = b, shape = s, stride = c_strides s, offset = 0\<rparr>"
  have "elems h ?v = map (\<lambda>p. d ! p) (map (\<lambda>idx. nat (position ?v idx)) (indices s))"
    using assms(2) by (simp add: elems_def get_elem_def comp_def)
  also have "\<dots> = map (\<lambda>p. d ! p) [0..<length d]"
    by (simp only: contiguous_nat_positions assms(1))
  also have "\<dots> = d" by (rule map_nth)
  finally show ?thesis .
qed

lemma fold_update_map:
  "n \<le> length d \<Longrightarrow>
   fold (\<lambda>p d'. d'[p := f (d' ! p)]) [0..<n] d = map f (take n d) @ drop n d"
proof (induction n)
  case 0
  then show ?case by simp
next
  case (Suc n)
  then have lt: "n < length d" by simp
  have "fold (\<lambda>p d'. d'[p := f (d' ! p)]) [0..<Suc n] d =
        (map f (take n d) @ drop n d)[n := f ((map f (take n d) @ drop n d) ! n)]"
    using Suc by simp
  also have "(map f (take n d) @ drop n d) ! n = d ! n"
    using lt by (simp add: nth_append)
  also have "(map f (take n d) @ drop n d)[n := f (d ! n)] =
        map f (take n d) @ (drop n d)[0 := f (d ! n)]"
    using lt by (simp add: list_update_append)
  also have "(drop n d)[0 := f (d ! n)] = f (d ! n) # drop (Suc n) d"
    using lt by (simp add: Cons_nth_drop_Suc[symmetric])
  also have "map f (take n d) @ f (d ! n) # drop (Suc n) d = map f (take (Suc n) d) @ drop (Suc n) d"
    using lt by (simp add: take_Suc_conv_app_nth)
  finally show ?case .
qed

lemma fold_set_elem_buffer:
  assumes "buf v < length h"
  shows "fold (\<lambda>idx h'. set_elem h' v idx (f (get_elem h' v idx))) idxs h =
         h[buf v := fold (\<lambda>p d'. d'[p := f (d' ! p)]) (map (\<lambda>idx. nat (position v idx)) idxs)
                      (h ! buf v)]"
  using assms
proof (induction idxs arbitrary: h)
  case Nil
  then show ?case by simp
next
  case (Cons idx idxs)
  let ?h1 = "set_elem h v idx (f (get_elem h v idx))"
  have "buf v < length ?h1" using Cons.prems by simp
  from Cons.IH[OF this] show ?case
    using Cons.prems by (simp add: set_elem_def get_elem_def)
qed

lemma cwise_contiguous:
  assumes "b < length h" "length (h ! b) = prod_list s"
  shows "cwise f h \<lparr>buf = b, shape = s, stride = c_strides s, offset = 0\<rparr> = h[b := map f (h ! b)]"
proof -
  let ?v = "\<lparr>buf = b, shape = s, stride = c_strides s, offset = 0\<rparr>"
  have "cwise f h ?v =
        h[b := fold (\<lambda>p d'. d'[p := f (d' ! p)]) (map (\<lambda>idx. nat (position ?v idx)) (indices s)) (h ! b)]"
    using fold_set_elem_buffer[of ?v h f "indices s"] assms(1) by (simp add: cwise_def)
  also have "map (\<lambda>idx. nat (position ?v idx)) (indices s) = [0..<length (h ! b)]"
    by (simp only: contiguous_nat_positions assms(2))
  also have "fold (\<lambda>p d'. d'[p := f (d' ! p)]) [0..<length (h ! b)] (h ! b) = map f (h ! b)"
    using fold_update_map[of "length (h ! b)" "h ! b" f] by simp
  finally show ?thesis .
qed

lemma length_elems: "length (elems h v) = prod_list (shape v)"
  by (simp add: elems_def length_indices)

lemma apply_on_clone_elems:
  "elems (fst (apply_on_clone f h x)) (snd (apply_on_clone f h x)) = map f (elems h x)"
proof -
  let ?s = "\<lparr>buf = length h, shape = shape x, stride = c_strides (shape x), offset = 0\<rparr>"
  let ?h1 = "h @ [elems h x]"
  have ap: "apply_on_clone f h x = (cwise f ?h1 ?s, ?s)"
    by (simp add: apply_on_clone_def clone_def alloc_def)
  have "cwise f ?h1 ?s = ?h1[length h := map f (?h1 ! length h)]"
    by (rule cwise_contiguous) (simp_all add: length_elems)
  then have cw: "cwise f ?h1 ?s = h @ [map f (elems h x)]" by simp
  have "elems (h @ [map f (elems h x)]) ?s = map f (elems h x)"
    by (rule elems_contiguous) (simp_all add: length_elems)
  with ap cw show ?thesis by simp
qed

lemma elems_single:
  "elems [[a]] \<lparr>buf = 0, shape = [1], stride = [1], offset = 0\<rparr> = [a]"
  by (simp add: elems_def get_elem_def position_def linear_def)

lemma valid_single:
  "valid [[a]] \<lparr>buf = 0, shape = [1], stride = [1], offset = 0\<rparr>"
  by (simp add: valid_def position_def linear_def)

section \<open>Properties of the unary operations\<close>

text \<open>
  Claim C7. For every input array \<open>x\<close> (a view of an allocated buffer), each unary
  element-wise operation of the facade (\<open>exp\<close>, \<open>log\<close>, \<open>sqrt\<close>, \<open>sin\<close>, \<open>cos\<close>,
  \<open>tan\<close>, \<open>arcsin\<close>, \<open>arccos\<close>, \<open>arctan\<close>, \<open>tanh\<close>, \<open>negative\<close>, \<open>abs\<close>,
  \<open>round\<close>, \<open>sigmoid\<close>, \<open>clip\<close>, \<open>leakyRelu\<close>) operates on a copy: after the call
  every buffer that existed before is unchanged, so every element of \<open>x\<close> is unchanged,
  and the result has the shape of \<open>x\<close>.
\<close>

theorem unary_ops_on_copy:
  assumes "buf x < length h"
  shows "on_copy h x (exp_op h x) \<and> on_copy h x (log_op h x) \<and> on_copy h x (sqrt_op h x)
    \<and> on_copy h x (sin_op h x) \<and> on_copy h x (cos_op h x) \<and> on_copy h x (tan_op h x)
    \<and> on_copy h x (arcsin_op h x) \<and> on_copy h x (arccos_op h x) \<and> on_copy h x (arctan_op h x)
    \<and> on_copy h x (tanh_op h x) \<and> on_copy h x (negative h x) \<and> on_copy h x (abs_op h x)
    \<and> on_copy h x (round_op h x) \<and> on_copy h x (sigmoid h x t) \<and> on_copy h x (clip h x args)
    \<and> on_copy h x (leakyRelu h x alpha)"
proof -
  note oc = apply_on_clone_on_copy[OF assms]
  have "on_copy h x (clip h x args)" by (cases args) (simp_all add: oc)
  then show ?thesis
    by (simp add: oc exp_op_def log_op_def sqrt_op_def sin_op_def cos_op_def tan_op_def
        arcsin_op_def arccos_op_def arctan_op_def tanh_op_def negative_def abs_op_def
        round_op_def sigmoid_def leakyRelu_def)
qed

theorem unary_ops_on_copy_witness:
  "buf \<lparr>buf = 0, shape = [1], stride = [1], offset = 0\<rparr> < length [[4::real]]
   \<and> on_copy [[4]] \<lparr>buf = 0, shape = [1], stride = [1], offset = 0\<rparr>
        (sqrt_op [[4]] \<lparr>buf = 0, shape = [1], stride = [1], offset = 0\<rparr>)
   \<and> elems (fst (sqrt_op [[4]] \<lparr>buf = 0, shape = [1], stride = [1], offset = 0\<rparr>))
            (snd (sqrt_op [[4]] \<lparr>buf = 0, shape = [1], stride = [1], offset = 0\<rparr>)) = [2]"
proof -
  let ?x = "\<lparr>buf = 0, shape = [1], stride = [1], offset = 0\<rparr>"
  have b: "buf ?x < length [[4::real]]" by simp
  have oc: "on_copy [[4]] ?x (sqrt_op [[4]] ?x)"
    using unary_ops_on_copy[OF b, where t = None and args = Clip1 and alpha = None] by blast
  have "sqrt 4 = (2::real)" using real_sqrt_abs[of 2] by simp
  then have "elems (fst (sqrt_op [[4]] ?x)) (snd (sqrt_op [[4]] ?x)) = [2]"
    unfolding sqrt_op_def apply_on_clone_elems elems_single by simp
  with b oc show ?thesis by blast
qed

section \<open>Properties of sigmoid\<close>

lemma sigmoid_elems:
  "elems (fst (sigmoid h x t)) (snd (sigmoid h x t)) =
     map (\<lambda>a. sigmoidCwise a (or_default t 1)) (elems h x)"
  unfolding sigmoid_def by (rule apply_on_clone_elems)

text \<open>
  Claim C2, as amended. For every valid input array \<open>x\<close> and every stiffness \<open>t\<close> that
  is omitted (then 1) or not 0, the result has one element per element of \<open>x\<close>, and the
  element for \<open>x_i\<close> is exactly 0 when \<open>x_i < -30\<close>, exactly 1 when \<open>x_i > 30\<close>, and
  \<open>1 / (1 + exp (- t * x_i))\<close> otherwise: the saturation test is on \<open>x_i\<close>, not on
  \<open>t * x_i\<close>.
\<close>

theorem sigmoid_saturates_on_input:
  assumes "valid h x" "t \<noteq> Some 0"
  shows "length (elems (fst (sigmoid h x t)) (snd (sigmoid h x t))) = length (elems h x)
    \<and> (\<forall>i < length (elems h x).
         (elems h x ! i < -30 \<longrightarrow> elems (fst (sigmoid h x t)) (snd (sigmoid h x t)) ! i = 0)
       \<and> (elems h x ! i > 30 \<longrightarrow> elems (fst (sigmoid h x t)) (snd (sigmoid h x t)) ! i = 1)
       \<and> (-30 \<le> elems h x ! i \<and> elems h x ! i \<le> 30 \<longrightarrow>
            elems (fst (sigmoid h x t)) (snd (sigmoid h x t)) ! i =
              1 / (1 + exp (- ((case t of None \<Rightarrow> 1 | Some v \<Rightarrow> v) * (elems h x ! i))))))"
proof -
  have t: "or_default t 1 = (case t of None \<Rightarrow> 1 | Some v \<Rightarrow> v)"
    using assms(2) by (cases t) (simp_all add: or_default_def)
  show ?thesis
    unfolding sigmoid_elems t by (simp add: sigmoidCwise_def)
qed

theorem sigmoid_saturates_on_input_witness:
  "valid [[40]] \<lparr>buf = 0, shape = [1], stride = [1], offset = 0\<rparr>
   \<and> None \<noteq> Some (0::real)
   \<and> (0::nat) < length (elems [[40]] \<lparr>buf = 0, shape = [1], stride = [1], offset = 0\<rparr>)
   \<and> elems [[40]] \<lparr>buf = 0, shape = [1], stride = [1], offset = 0\<rparr> ! 0 > 30
   \<and> elems (fst (sigmoid [[40]] \<lparr>buf = 0, shape = [1], stride = [1], offset = 0\<rparr> None))
            (snd (sigmoid [[40]] \<lparr>buf = 0, shape = [1], stride = [1], offset = 0\<rparr> None)) ! 0 = 1"
proof -
  let ?x = "\<lparr>buf = 0, shape = [1], stride = [1], offset = 0\<rparr>"
  have v: "valid [[40]] ?x" by (rule valid_single)
  have t: "None \<noteq> Some (0::real)" by simp
  have i: "(0::nat) < length (elems [[40]] ?x)" unfolding elems_single by simp
  have g: "elems [[40]] ?x ! 0 > 30" unfolding elems_single by simp
  have "elems (fst (sigmoid [[40]] ?x None)) (snd (sigmoid [[40]] ?x None)) ! 0 = 1"
    using sigmoid_saturates_on_input[OF v t, THEN conjunct2, rule_format, OF i,
        THEN conjunct2, THEN conjunct1, rule_format, OF g] .
  with v t i g show ?thesis by blast
qed

text \<open>
  Claim C2 as stated fails for \<open>t = 2\<close> and \<open>x_i = -20\<close>: \<open>t * x_i = -40\<close> is below
  \<open>-30\<close>, but the element is \<open>1 / (1 + exp 40)\<close>, which is not 0.
\<close>

theorem sigmoid_stiffness_counterexample:
  "valid [[-20]] \<lparr>buf = 0, shape = [1], stride = [1], offset = 0\<rparr>
   \<and> 2 * (-20) < (-30::real)
   \<and> elems (fst (sigmoid [[-20]] \<lparr>buf = 0, shape = [1], stride = [1], offset = 0\<rparr> (Some 2)))
            (snd (sigmoid [[-20]] \<lparr>buf = 0, shape = [1], stride = [1], offset = 0\<rparr> (Some 2)))
       = [1 / (1 + exp 40)]
   \<and> 1 / (1 + exp 40) \<noteq> (0::real)"
proof -
  have "(0::real) < 1 + exp 40" by (simp add: add_pos_pos)
  then have nz: "1 / (1 + exp 40) \<noteq> (0::real)" by simp
  have "elems (fst (sigmoid [[-20]] \<lparr>buf = 0, shape = [1], stride = [1], offset = 0\<rparr> (Some 2)))
            (snd (sigmoid [[-20]] \<lparr>buf = 0, shape = [1], stride = [1], offset = 0\<rparr> (Some 2)))
       = [1 / (1 + exp 40)]"
    unfolding sigmoid_elems elems_single by (simp add: sigmoidCwise_def or_default_def)
  with nz valid_single[of "-20"] show ?thesis by simp
qed

section \<open>Properties of fft and ifft\<close>

lemma buf_nd_pick [simp]: "buf (nd_pick v p) = buf v"
  by (simp add: nd_pick_def Let_def)

lemma js_index_last: "s \<noteq> [] \<Longrightarrow> js_index s (length s - Suc 0) = Some (last s)"
  by (simp add: js_index_def last_conv_nth)

lemma unmodified_extend:
  assumes "buf x < length h" "length h' = Suc (length h)"
    and "\<And>a. a < length h \<Longrightarrow> h' ! a = h ! a"
  shows "unmodified h x h'"
proof -
  have "take (length h) h' = h"
    using assms(2,3) by (intro nth_equalityI) simp_all
  moreover have "elems h' x = elems h x"
    using assms(1,3) by (intro elems_cong_store) simp
  ultimately show ?thesis using assms(2) by (simp add: unmodified_def)
qed

lemma fft_body_result:
  "snd (fft_body sign F h x) =
     (if shape x = [] \<or> last (shape x) \<noteq> 2 then Inl ValueError
      else Inr \<lparr>buf = length h, shape = shape x, stride = c_strides (shape x), offset = 0\<rparr>)"
  by (auto simp add: fft_body_def clone_def alloc_def Let_def js_index_last split: prod.split)

lemma fft_body_unmodified:
  assumes "buf x < length h"
  shows "unmodified h x (fst (fft_body sign F h x))"
proof -
  let ?y = "\<lparr>buf = length h, shape = shape x, stride = c_strides (shape x), offset = 0\<rparr>"
  let ?h1 = "h @ [elems h x]"
  have cl: "clone h x = (?h1, ?y)" by (simp add: clone_def alloc_def)
  show ?thesis
  proof (rule unmodified_extend[OF assms])
    show "length (fst (fft_body sign F h x)) = Suc (length h)"
      by (simp add: fft_body_def cl Let_def write_view_frame split: prod.split)
    fix a assume a: "a < length h"
    then have ne: "a \<noteq> length h" by simp
    show "fst (fft_body sign F h x) ! a = h ! a"
      using a ne by (simp add: fft_body_def cl Let_def write_view_frame nth_append split: prod.split)
  qed
qed

text \<open>
  Claim C4. For every input array \<open>x\<close> (a view of an allocated buffer), \<open>fft\<close> and
  \<open>ifft\<close> raise a \<open>ValueError\<close> if and only if the last dimension of the shape of
  \<open>x\<close> is not exactly 2 (an empty shape has no last dimension); otherwise they return an
  array of the shape of \<open>x\<close>. On every call, success or error, every buffer that
  existed before is unchanged, so the caller's array is unmodified: the transform is
  written to the picked views of a clone.
\<close>

theorem fft_last_dimension:
  assumes "buf x < length h"
  shows "(snd (fft ndFFT h x) = Inl ValueError) = (shape x = [] \<or> last (shape x) \<noteq> 2)
    \<and> (snd (ifft ndFFT h x) = Inl ValueError) = (shape x = [] \<or> last (shape x) \<noteq> 2)
    \<and> (shape x \<noteq> [] \<and> last (shape x) = 2 \<longrightarrow>
          (\<exists>r. snd (fft ndFFT h x) = Inr r \<and> shape r = shape x)
        \<and> (\<exists>r. snd (ifft ndFFT h x) = Inr r \<and> shape r = shape x))
    \<and> unmodified h x (fst (fft ndFFT h x))
    \<and> unmodified h x (fst (ifft ndFFT h x))"
  using fft_body_unmodified[OF assms]
  by (simp add: fft_def ifft_def fft_body_result)

theorem fft_last_dimension_witness:
  "buf \<lparr>buf = 0, shape = [1, 2], stride = [2, 1], offset = 0\<rparr> < length [[3, 4::real]]
   \<and> shape \<lparr>buf = 0, shape = [1, 2], stride = [2, 1], offset = 0\<rparr> \<noteq> []
   \<and> last (shape \<lparr>buf = 0, shape = [1, 2], stride = [2, 1], offset = 0\<rparr>) = 2
   \<and> (\<exists>r. snd (fft (\<lambda>s sh re im. (im, re)) [[3, 4]]
                 \<lparr>buf = 0, shape = [1, 2], stride = [2, 1], offset = 0\<rparr>) = Inr r
          \<and> shape r = [1, 2])
   \<and> unmodified [[3, 4]] \<lparr>buf = 0, shape = [1, 2], stride = [2, 1], offset = 0\<rparr>
        (fst (fft (\<lambda>s sh re im. (im, re)) [[3, 4]]
                 \<lparr>buf = 0, shape = [1, 2], stride = [2, 1], offset = 0\<rparr>))
   \<and> buf \<lparr>buf = 0, shape = [3], stride = [1], offset = 0\<rparr> < length [[3, 4, 5::real]]
   \<and> last (shape \<lparr>buf = 0, shape = [3], stride = [1], offset = 0\<rparr>) \<noteq> 2
   \<and> snd (fft (\<lambda>s sh re im. (im, re)) [[3, 4, 5]]
             \<lparr>buf = 0, shape = [3], stride = [1], offset = 0\<rparr>) = Inl ValueError"
proof -
  let ?x = "\<lparr>buf = 0, shape = [1, 2], stride = [2, 1], offset = 0\<rparr>"
  let ?z = "\<lparr>buf = 0, shape = [3], stride = [1], offset = 0\<rparr>"
  let ?F = "\<lambda>(s::int) (sh::nat list) (re::real list) (im::real list). (im, re)"
  have b: "buf ?x < length [[3, 4::real]]" by simp
  have s: "shape ?x \<noteq> [] \<and> last (shape ?x) = 2" by simp
  note t = fft_last_dimension[OF b, of ?F]
  have r: "\<exists>r. snd (fft ?F [[3, 4]] ?x) = Inr r \<and> shape r = shape ?x"
    using t[THEN conjunct2, THEN conjunct2, THEN conjunct1, rule_format, OF s] by blast
  have u: "unmodified [[3, 4]] ?x (fst (fft ?F [[3, 4]] ?x))"
    using t by blast
  have b2: "buf ?z < length [[3, 4, 5::real]]" by simp
  have s2: "last (shape ?z) \<noteq> 2" by simp
  have e: "snd (fft ?F [[3, 4, 5]] ?z) = Inl ValueError"
    using fft_last_dimension[OF b2, of ?F, THEN conjunct1] s2 by blast
  from b s r u b2 s2 e show ?thesis by simp
qed

section \<open>Properties of flip and rot90\<close>

lemma clean_axis_nonneg: "0 \<le> a \<Longrightarrow> clean_axis a n = Some a"
  by (subst clean_axis.simps) simp

lemma norm_k_nonneg: "0 \<le> k \<Longrightarrow> norm_k k = k"
  by (subst norm_k.simps) simp

lemma step_dim_unit: "step_dim n 1 = n" "step_dim n (- 1) = n"
  by (simp_all add: step_dim_def)

lemma flip_2d_axis1:
  "flip \<lparr>buf = b, shape = [n0, n1], stride = [s0, s1], offset = ofs\<rparr> 1 =
     Some (Inr \<lparr>buf = b, shape = [n0, n1], stride = [s0, - s1],
                offset = ofs + s1 * (int n1 - 1)\<rparr>)"
  by (simp add: flip_def ndim_def clean_axis_nonneg js_index_def nd_step_def step_dim_unit
      numeral_2_eq_2)

lemma transpose_2d_swap:
  "nd_transpose \<lparr>buf = b, shape = [n0, n1], stride = [s0, s1], offset = ofs\<rparr> [Some 1, Some 0] =
     Inr \<lparr>buf = b, shape = [n1, n0], stride = [s1, s0], offset = ofs\<rparr>"
  by (simp add: nd_transpose_def is_permutation_def ndim_def numeral_2_eq_2)

lemma rot90_2d:
  assumes "numberNdim \<noteq> 2"
  shows "rot90 numberNdim \<lparr>buf = b, shape = [n0, n1], stride = [s0, s1], offset = ofs\<rparr> None None =
     Some (Inr \<lparr>buf = b, shape = [n1, n0], stride = [- s1, s0],
                offset = ofs + s1 * (int n1 - 1)\<rparr>)"
proof -
  have ax: "js_write (js_write [Some 0, Some 1] 0 (js_read [Some 0, Some 1] 1)) 1
              (js_read [Some 0, Some 1] 0) = [Some 1, Some 0]"
    by (simp add: js_write_def js_read_def)
  have up: "map (\<lambda>i. Some (int i)) [0..<2] = [Some 0, Some 1]"
    by (simp add: numeral_2_eq_2)
  show ?thesis
    using assms
    by (simp add: rot90_def Let_def norm_k_nonneg ndim_def up ax flip_2d_axis1 transpose_2d_swap)
qed

lemma view_2d:
  assumes "ndim x = 2" "length (stride x) = 2"
  obtains n0 n1 s0 s1 where
    "x = \<lparr>buf = buf x, shape = [n0, n1], stride = [s0, s1], offset = offset x\<rparr>"
proof -
  obtain n0 n1 where sh: "shape x = [n0, n1]"
    using assms(1) by (cases "shape x"; cases "tl (shape x)") (auto simp add: ndim_def)
  obtain s0 s1 where st: "stride x = [s0, s1]"
    using assms(2) by (cases "stride x"; cases "tl (stride x)") auto
  have "x = \<lparr>buf = buf x, shape = [n0, n1], stride = [s0, s1], offset = offset x\<rparr>"
    using sh st by simp
  then show ?thesis by (rule that)
qed

text \<open>
  Claim C8. For every 2-D array \<open>x\<close>, applying \<open>rot90\<close> four times with its default
  arguments yields \<open>x\<close>: the very same view, hence the same shape and the same
  elements in every store. (The rank that the factory gives to a number must not be 2,
  or \<open>rot90\<close> rejects every 2-D array.)
\<close>

theorem rot90_four_times:
  assumes "ndim x = 2" "length (stride x) = 2" "numberNdim \<noteq> 2"
  shows "\<exists>r. rot90_iter numberNdim 4 x = Some (Inr r) \<and> r = x
           \<and> shape r = shape x \<and> elems h r = elems h x"
proof -
  obtain n0 n1 s0 s1 where
    x: "x = \<lparr>buf = buf x, shape = [n0, n1], stride = [s0, s1], offset = offset x\<rparr>"
    using assms(1,2) by (rule view_2d)
  have four: "(4::nat) = Suc (Suc (Suc (Suc 0)))" by simp
  have "rot90_iter numberNdim 4 \<lparr>buf = buf x, shape = [n0, n1], stride = [s0, s1], offset = offset x\<rparr>
        = Some (Inr \<lparr>buf = buf x, shape = [n0, n1], stride = [s0, s1], offset = offset x\<rparr>)"
    unfolding four by (simp add: rot90_2d[OF assms(3)] algebra_simps)
  then have "rot90_iter numberNdim 4 x = Some (Inr x)" using x by simp
  then show ?thesis by simp
qed

theorem rot90_four_times_witness:
  "ndim \<lparr>buf = 0, shape = [2, 2], stride = [2, 1], offset = 0\<rparr> = 2
   \<and> length (stride \<lparr>buf = 0, shape = [2, 2], stride = [2, 1], offset = 0\<rparr>) = 2
   \<and> (1::nat) \<noteq> 2
   \<and> rot90_iter 1 4 \<lparr>buf = 0, shape = [2, 2], stride = [2, 1], offset = 0\<rparr>
       = Some (Inr \<lparr>buf = 0, shape = [2, 2], stride = [2, 1], offset = 0\<rparr>)
   \<and> rot90 1 \<lparr>buf = 0, shape = [2, 2], stride = [2, 1], offset = 0\<rparr> None None
       = Some (Inr \<lparr>buf = 0, shape = [2, 2], stride = [- 1, 2], offset = 1\<rparr>)"
proof -
  let ?x = "\<lparr>buf = 0, shape = [2, 2], stride = [2, 1], offset = 0\<rparr>"
  have a: "ndim ?x = 2" by (simp add: ndim_def)
  have b: "length (stride ?x) = 2" by simp
  have c: "(1::nat) \<noteq> 2" by simp
  have "\<exists>r. rot90_iter 1 4 ?x = Some (Inr r) \<and> r = ?x
           \<and> shape r = shape ?x \<and> elems [] r = elems [] ?x"
    using a b c by (rule rot90_four_times)
  then have d: "rot90_iter 1 4 ?x = Some (Inr ?x)" by blast
  have e: "rot90 1 ?x None None
       = Some (Inr \<lparr>buf = 0, shape = [2, 2], stride = [- 1, 2], offset = 1\<rparr>)"
    using rot90_2d[OF c, where b = 0 and ?n0.0 = 2 and ?n1.0 = 2 and ?s0.0 = 2 and ?s1.0 = 1 and ofs = 0] by simp
  from a b c d e show ?thesis by blast
qed

lemma rot90_zero_as_one: "rot90 n m (Some 0) axes = rot90 n m (Some 1) axes"
  by (simp add: rot90_def)

lemma norm_k_mod: "norm_k k mod 4 = k mod 4"
proof (induction k rule: norm_k.induct)
  case (1 k)
  show ?case
  proof (cases "k < 0")
    case True
    then have "norm_k k mod 4 = norm_k (k + 4) mod 4" by (subst norm_k.simps) simp
    also have "\<dots> = (k + 4) mod 4" using True by (rule "1.IH")
    also have "\<dots> = k mod 4" by simp
    finally show ?thesis .
  next
    case False
    then show ?thesis by (subst norm_k.simps) simp
  qed
qed

text \<open>
  For \<open>k \<noteq> 0\<close> the dispatch is on \<open>k mod 4\<close>: the array itself, two flips, or one
  flip and one transpose that swaps the two axes.
\<close>

lemma rot90_nonzero_k:
  assumes "k \<noteq> 0" "a0 \<noteq> a1" "numberNdim \<noteq> ndim m"
  shows "rot90 numberNdim m (Some k) (Some [a0, a1]) =
     (let axesList = map (\<lambda>i. Some (int i)) [0..<ndim m];
          swapped = js_write (js_write axesList a0 (js_read axesList a1)) a1 (js_read axesList a0)
      in
      if k mod 4 = 0 then Some (Inr m)
      else if k mod 4 = 2 then
        (case flip m a0 of
           None \<Rightarrow> None
         | Some (Inl e) \<Rightarrow> Some (Inl e)
         | Some (Inr f) \<Rightarrow> flip f a1)
      else if k mod 4 = 1 then
        (case flip m a1 of
           None \<Rightarrow> None
         | Some (Inl e) \<Rightarrow> Some (Inl e)
         | Some (Inr f) \<Rightarrow> Some (nd_transpose f swapped))
      else
        (case nd_transpose m swapped of
           Inl e \<Rightarrow> Some (Inl e)
         | Inr t \<Rightarrow> flip t a1))"
  using assms by (simp add: rot90_def Let_def norm_k_mod)

text \<open>
  Claim C3 at \<open>k = 0\<close>. The claim says that \<open>rot90 m 0\<close> returns \<open>m\<close> itself. In the
  code \<^verbatim>\<open>k = k || 1\<close> turns 0 into 1 before the normalisation, so \<open>rot90 m 0\<close> is
  \<open>rot90 m 1\<close>: the 2 by 2 array \<open>[[1, 2], [3, 4]]\<close> comes back as
  \<open>[[2, 4], [1, 3]]\<close>. With \<open>k = 4\<close> the normalised value is 0 and \<open>m\<close> is returned.
\<close>

theorem rot90_k_zero_rotates:
  "rot90 n \<lparr>buf = 0, shape = [2, 2], stride = [2, 1], offset = 0\<rparr> (Some 0) None
     = rot90 n \<lparr>buf = 0, shape = [2, 2], stride = [2, 1], offset = 0\<rparr> None None
   \<and> rot90 1 \<lparr>buf = 0, shape = [2, 2], stride = [2, 1], offset = 0\<rparr> (Some 0) None
     = Some (Inr \<lparr>buf = 0, shape = [2, 2], stride = [- 1, 2], offset = 1\<rparr>)
   \<and> rot90 1 \<lparr>buf = 0, shape = [2, 2], stride = [2, 1], offset = 0\<rparr> (Some 0) None
     \<noteq> Some (Inr \<lparr>buf = 0, shape = [2, 2], stride = [2, 1], offset = 0\<rparr>)
   \<and> elems [[1, 2, 3, 4]] \<lparr>buf = 0, shape = [2, 2], stride = [2, 1], offset = 0\<rparr> = [1, 2, 3, 4]
   \<and> elems [[1, 2, 3, 4]] \<lparr>buf = 0, shape = [2, 2], stride = [- 1, 2], offset = 1\<rparr> = [2, 4, 1, 3]
   \<and> rot90 1 \<lparr>buf = 0, shape = [2, 2], stride = [2, 1], offset = 0\<rparr> (Some 4) None
     = Some (Inr \<lparr>buf = 0, shape = [2, 2], stride = [2, 1], offset = 0\<rparr>)"
proof -
  let ?x = "\<lparr>buf = 0, shape = [2, 2], stride = [2, 1], offset = 0\<rparr>"
  have a: "rot90 j ?x (Some 0) None = rot90 j ?x None None" for j by (simp add: rot90_def)
  have c: "(1::nat) \<noteq> 2" by simp
  have b: "rot90 1 ?x (Some 0) None
     = Some (Inr \<lparr>buf = 0, shape = [2, 2], stride = [- 1, 2], offset = 1\<rparr>)"
    unfolding a[of 1] using rot90_2d[OF c, where b = 0 and ?n0.0 = 2 and ?n1.0 = 2 and ?s0.0 = 2 and ?s1.0 = 1 and ofs = 0] by simp
  have d: "rot90 1 ?x (Some 4) None = Some (Inr ?x)"
    by (simp add: rot90_def norm_k_nonneg ndim_def)
  have e: "elems [[1, 2, 3, 4]] ?x = [1, 2, 3, 4]"
    by (simp add: elems_def get_elem_def position_def linear_def numeral_2_eq_2)
  have f: "elems [[1, 2, 3, 4]] \<lparr>buf = 0, shape = [2, 2], stride = [- 1, 2], offset = 1\<rparr>
      = [2, 4, 1, 3]"
    by (simp add: elems_def get_elem_def position_def linear_def numeral_2_eq_2)
  from a[of n] b d e f show ?thesis by simp
qed

section \<open>Properties of stack\<close>


lemma length_c_strides [simp]: "length (c_strides s) = length s"
  by (induction s) simp_all

















end
